theory Spec2Isabelle
  imports Main "HOL-Library.Word" "HOL-Library.Monad_Syntax"
begin

unbundle bit_operations_syntax

section \<open>Data model\<close>

text \<open>
  Go's \<open>byte\<close> is an 8-bit word and \<open>uint32\<close> a 32-bit word, both with wrap-around
  arithmetic.  A Go \<open>string\<close> is a sequence of bytes; it is modelled as a \<open>string\<close>
  (a list of 8-bit characters), and indexing a string yields the byte \<open>of_char c\<close>.
  Lengths and indices (\<open>uint\<close> in the source) are natural numbers: a length is at most
  the largest \<open>int\<close>, so neither \<open>sourceLen + chunkCount\<close> nor
  \<open>chunkIndex * encodedChunkSize + i\<close> can leave the range of \<open>uint\<close>.
\<close>

type_synonym byte = "8 word"
type_synonym uint32 = "32 word"

text \<open>The untyped constants of \<open>z85.go\<close>; like in Go they take the type of their context.\<close>

definition codeSize :: "'a::numeral" where
  "codeSize = 85"

definition byteChunkSize :: "'a::numeral" where
  "byteChunkSize = 4"

definition byteChunkMask :: nat where
  "byteChunkMask = byteChunkSize - 1"

definition byteChunkShift :: nat where
  "byteChunkShift = 2"

definition encodedChunkSize :: "'a::numeral" where
  "encodedChunkSize = 5"

definition decodeOffset :: byte where
  "decodeOffset = of_char CHR ''!''"

definition ivEc :: byte where
  "ivEc = 0xff"

definition encodeTable :: string where
  "encodeTable = ''0123456789abcdefghijklmnopqrstuvwxyzABCDEFGHIJKLMNOPQRSTUVWXYZ.-:+=^!/*?&<>()[]{}@%$#''"

definition decodeTable :: "byte list" where
  "decodeTable =
    [0x44, ivEc, 0x54, 0x53, 0x52, 0x48, ivEc,
     0x4b, 0x4c, 0x46, 0x41, ivEc, 0x3f, 0x3e, 0x45,
     0x00, 0x01, 0x02, 0x03, 0x04, 0x05, 0x06, 0x07,
     0x08, 0x09, 0x40, ivEc, 0x49, 0x42, 0x4a, 0x47,
     0x51, 0x24, 0x25, 0x26, 0x27, 0x28, 0x29, 0x2a,
     0x2b, 0x2c, 0x2d, 0x2e, 0x2f, 0x30, 0x31, 0x32,
     0x33, 0x34, 0x35, 0x36, 0x37, 0x38, 0x39, 0x3a,
     0x3b, 0x3c, 0x3d, 0x4d, ivEc, 0x4e, 0x43, ivEc,
     ivEc, 0x0a, 0x0b, 0x0c, 0x0d, 0x0e, 0x0f, 0x10,
     0x11, 0x12, 0x13, 0x14, 0x15, 0x16, 0x17, 0x18,
     0x19, 0x1a, 0x1b, 0x1c, 0x1d, 0x1e, 0x1f, 0x20,
     0x21, 0x22, 0x23, 0x4f, ivEc, 0x50]"

definition decodeMaxValue :: byte where
  "decodeMaxValue = of_nat (length decodeTable) + decodeOffset - 1"

subsection \<open>Errors (\<open>errors.go\<close>)\<close>

text \<open>
  A value of Go's interface \<open>error\<close> is a value together with its dynamic type; \<open>nil\<close> is
  \<open>None\<close>.  The package has two error types: \<open>ErrInvalidLength\<close>, a \<open>byte\<close> (the divisor)
  that is an error as a value, and \<open>*ErrInvalidByte\<close>, the pointer to a struct of a position
  and the offending byte (\<open>Error\<close> has a pointer receiver, so only the pointer is an error).
  The interface is open, and \<open>IsErrInvalidLength\<close> and \<open>IsErrInvalidByte\<close> take any error:
  \<open>Foreign m w\<close> stands for an error of a type of another package, with the message \<open>m\<close>
  and the error \<open>w\<close> that its \<open>Unwrap\<close> method returns (\<open>None\<close> when it has none or returns
  \<open>nil\<close>), as \<open>errors.New\<close> and \<open>fmt.Errorf\<close> make them.  Foreign types with an \<open>As\<close> method
  of their own or with an \<open>Unwrap\<close> that returns a slice are outside the model.
\<close>

datatype error =
    ErrInvalidLength byte
  | ErrInvalidByte (position: nat) (val: byte)
  | Foreign string "error option"

datatype errorType = TErrInvalidLength | TPtrErrInvalidByte | TForeign

fun typeOf :: "error \<Rightarrow> errorType" where
  "typeOf (ErrInvalidLength e) = TErrInvalidLength"
| "typeOf (ErrInvalidByte p v) = TPtrErrInvalidByte"
| "typeOf (Foreign m w) = TForeign"

text \<open>Neither error type of the package declares an \<open>Unwrap\<close> method.\<close>

fun Unwrap :: "error \<Rightarrow> error option" where
  "Unwrap (ErrInvalidLength e) = None"
| "Unwrap (ErrInvalidByte p v) = None"
| "Unwrap (Foreign m w) = w"

text \<open>
  \<open>errors.As\<close> of Go's standard library, for a target of the type \<open>target\<close>: \<open>false\<close> for
  a \<open>nil\<close> error; else it walks the chain of \<open>Unwrap\<close> and returns \<open>true\<close> at the first
  error whose dynamic type is assignable to the target's type, which for the two
  concrete types here means that the types are the same.
\<close>

function errors_As :: "error option \<Rightarrow> errorType \<Rightarrow> bool" where
  "errors_As None target = False"
| "errors_As (Some err) target =
     (if typeOf err = target then True else errors_As (Unwrap err) target)"
  by pat_completeness auto
termination
proof (relation "measure (\<lambda>(err, target). case err of None \<Rightarrow> 0 | Some e \<Rightarrow> Suc (size e))")
  show "wf (measure (\<lambda>(err, target). case err of None \<Rightarrow> 0 | Some e \<Rightarrow> Suc (size e)))"
    by simp
next
  fix err :: error and target :: errorType
  assume "typeOf err \<noteq> target"
  show "((Unwrap err, target), (Some err, target))
      \<in> measure (\<lambda>(err, target). case err of None \<Rightarrow> 0 | Some e \<Rightarrow> Suc (size e))"
    by (cases err) (auto split: option.splits)
qed

text \<open>
  \<open>IsErrInvalidLength\<close> passes a pointer to a variable of type \<open>ErrInvalidLength\<close>, so
  the target's type is the value type; \<open>IsErrInvalidByte\<close> passes a pointer to a variable
  of type \<open>*ErrInvalidByte\<close>, so the target's type is the pointer type.
\<close>

definition IsErrInvalidLength :: "error option \<Rightarrow> bool" where
  "IsErrInvalidLength err = errors_As err TErrInvalidLength"

definition IsErrInvalidByte :: "error option \<Rightarrow> bool" where
  "IsErrInvalidByte err = errors_As err TPtrErrInvalidByte"

text \<open>
  The message texts.  \<open>fmt.Sprintf\<close> is modelled for the two formats of \<open>errors.go\<close>: the
  verb \<open>%d\<close> writes an unsigned integer in decimal, and \<open>%q\<close> writes a byte as a
  single-quoted character literal in Go syntax (\<open>strconv.AppendQuoteRune\<close> on the rune of
  that value: a backslash before the quote and the backslash, printable characters
  as they are in UTF-8, the named escapes, \<open>\x\<close> and two hex digits for the other
  control characters, \<open>\u\<close> and four hex digits for the rest).
\<close>

definition invalidLengthMessage :: string where
  "invalidLengthMessage = ''input length is not a multiple of %d''"

definition invalidByteMessage :: string where
  "invalidByteMessage = ''invalid byte at position %d: %q''"

function fmt_d :: "nat \<Rightarrow> string" where
  "fmt_d n = (if n < 10 then [char_of (48 + n)] else fmt_d (n div 10) @ [char_of (48 + n mod 10)])"
  by pat_completeness auto
termination
  by (relation "measure id") auto

definition lowerhex :: string where
  "lowerhex = ''0123456789abcdef''"

definition IsPrint :: "byte \<Rightarrow> bool" where
  "IsPrint r =
     (if 0x20 \<le> r \<and> r \<le> 0x7E then True
      else if 0xA1 \<le> r \<and> r \<le> 0xFF then r \<noteq> 0xAD
      else False)"

definition utf8_AppendRune :: "byte \<Rightarrow> string" where
  "utf8_AppendRune r =
     (if r \<le> 0x7F then [char_of (unat r)]
      else [char_of (unat (0xC0 OR drop_bit 6 r)), char_of (unat (0x80 OR (r AND 0x3F)))])"

definition appendEscapedRune :: "byte \<Rightarrow> string" where
  "appendEscapedRune r =
     (if r = 0x27 \<or> r = 0x5C then [CHR 0x5C, char_of (unat r)]
      else if IsPrint r then utf8_AppendRune r
      else if r = 0x07 then [CHR 0x5C, CHR ''a'']
      else if r = 0x08 then [CHR 0x5C, CHR ''b'']
      else if r = 0x0C then [CHR 0x5C, CHR ''f'']
      else if r = 0x0A then [CHR 0x5C, CHR ''n'']
      else if r = 0x0D then [CHR 0x5C, CHR ''r'']
      else if r = 0x09 then [CHR 0x5C, CHR ''t'']
      else if r = 0x0B then [CHR 0x5C, CHR ''v'']
      else if r < 0x20 \<or> r = 0x7F
        then [CHR 0x5C, CHR ''x'', lowerhex ! unat (drop_bit 4 r), lowerhex ! unat (r AND 0xF)]
      else [CHR 0x5C, CHR ''u'', CHR ''0'', CHR ''0'',
            lowerhex ! unat (drop_bit 4 r), lowerhex ! unat (r AND 0xF)])"

definition fmt_q :: "byte \<Rightarrow> string" where
  "fmt_q c = [CHR 0x27] @ appendEscapedRune c @ [CHR 0x27]"

text \<open>The text of the first occurrence of \<open>verb\<close> in a format replaced by \<open>text\<close>.\<close>

fun subst_verb :: "string \<Rightarrow> string \<Rightarrow> string \<Rightarrow> string" where
  "subst_verb verb text [] = []"
| "subst_verb verb text (c # cs) =
     (if take (length verb) (c # cs) = verb then text @ drop (length verb) (c # cs)
      else c # subst_verb verb text cs)"

fun Error :: "error \<Rightarrow> string" where
  "Error (ErrInvalidLength e) = subst_verb ''%d'' (fmt_d (unat e)) invalidLengthMessage"
| "Error (ErrInvalidByte p v) =
     subst_verb ''%q'' (fmt_q v) (subst_verb ''%d'' (fmt_d p) invalidByteMessage)"
| "Error (Foreign m w) = m"

subsection \<open>Slices, strings and run-time panics\<close>

text \<open>
  An index or a slice bound out of range is a run-time panic in Go; \<open>None\<close> stands for
  it.  The slice \<open>destination\<close> of both functions is a window into \<open>result\<close>: it is
  modelled as the buffer \<open>result\<close> and the offset \<open>dst\<close> at which the window starts.
\<close>

definition loadAt :: "'a list \<Rightarrow> nat \<Rightarrow> 'a option" where
  "loadAt b i = (if i < length b then Some (b ! i) else None)"

definition storeAt :: "'a list \<Rightarrow> nat \<Rightarrow> 'a \<Rightarrow> 'a list option" where
  "storeAt b i v = (if i < length b then Some (b[i := v]) else None)"

definition sliceFrom :: "'a list \<Rightarrow> nat \<Rightarrow> 'a list option" where
  "sliceFrom b n = (if n \<le> length b then Some (drop n b) else None)"

definition sliceTo :: "'a list \<Rightarrow> nat \<Rightarrow> 'a list option" where
  "sliceTo b n = (if n \<le> length b then Some (take n b) else None)"

definition strAt :: "string \<Rightarrow> nat \<Rightarrow> byte option" where
  "strAt s i = map_option of_char (loadAt s i)"

definition make :: "nat \<Rightarrow> byte list" where
  "make n = replicate n 0"

definition string_of_bytes :: "byte list \<Rightarrow> string" where
  "string_of_bytes b = map (\<lambda>w. char_of (unat w)) b"

text \<open>\<open>binary.BigEndian.Uint32\<close> and \<open>PutUint32\<close> of Go's standard library.\<close>

definition Uint32 :: "byte list \<Rightarrow> uint32 option" where
  "Uint32 b =
     (if 3 < length b
      then Some (ucast (b ! 3) OR push_bit 8 (ucast (b ! 2)) OR
                 push_bit 16 (ucast (b ! 1)) OR push_bit 24 (ucast (b ! 0)))
      else None)"

definition PutUint32 :: "byte list \<Rightarrow> nat \<Rightarrow> uint32 \<Rightarrow> byte list option" where
  "PutUint32 result dst v =
     (if dst + 3 < length result
      then Some (result[dst := ucast (drop_bit 24 v), dst + 1 := ucast (drop_bit 16 v),
                        dst + 2 := ucast (drop_bit 8 v), dst + 3 := ucast v])
      else None)"

section \<open>Encode\<close>

text \<open>The inner loop \<open>for i := byteChunkSize; i >= 0; i--\<close>, entered at \<open>i\<close>.\<close>

fun encodeChars :: "nat \<Rightarrow> uint32 \<Rightarrow> nat \<Rightarrow> byte list \<Rightarrow> byte list option" where
  "encodeChars i value dst result =
     (let valueDiv = value div codeSize in
      do {
        c \<leftarrow> strAt encodeTable (unat (value - valueDiv * codeSize));
        result' \<leftarrow> storeAt result (dst + i) c;
        if i = 0 then Some result' else encodeChars (i - 1) valueDiv dst result'
      })"

text \<open>The loop over the chunks, entered at \<open>chunkIndex\<close>.\<close>

function encodeLoop :: "nat \<Rightarrow> nat \<Rightarrow> byte list \<Rightarrow> nat \<Rightarrow> byte list \<Rightarrow> byte list option" where
  "encodeLoop chunkIndex chunkCount source dst result =
     (if chunkIndex < chunkCount then
        do {
          head \<leftarrow> sliceTo source byteChunkSize;
          value \<leftarrow> Uint32 head;
          result' \<leftarrow> encodeChars byteChunkSize value dst result;
          _ \<leftarrow> sliceFrom result' (dst + encodedChunkSize);
          source' \<leftarrow> sliceFrom source byteChunkSize;
          encodeLoop (chunkIndex + 1) chunkCount source' (dst + encodedChunkSize) result'
        }
      else Some result)"
  by pat_completeness auto
termination
  by (relation "measure (\<lambda>(chunkIndex, chunkCount, source, dst, result). chunkCount - chunkIndex)") auto

text \<open>
  \<open>Encode\<close> returns the pair of the text and the error; \<open>None\<close> is a run-time panic.
\<close>

definition Encode :: "byte list \<Rightarrow> (string \<times> error option) option" where
  "Encode source =
     (let sourceLen = length source in
      if sourceLen AND byteChunkMask \<noteq> 0 then Some ('''', Some (ErrInvalidLength byteChunkSize))
      else
        let chunkCount = drop_bit byteChunkShift sourceLen;
            result = make (sourceLen + chunkCount)
        in map_option (\<lambda>result. (string_of_bytes result, None))
             (encodeLoop 0 chunkCount source 0 result))"

section \<open>Decode\<close>

text \<open>
  The inner loop \<open>for i := uint(0); i < encodedChunkSize; i++\<close>, entered at \<open>i\<close>:
  \<open>Inl\<close> is the error the function returns with, \<open>Inr\<close> the value after the loop.
\<close>

function decodeChars :: "nat \<Rightarrow> nat \<Rightarrow> string \<Rightarrow> uint32 \<Rightarrow> (error + uint32) option" where
  "decodeChars chunkIndex i source value =
     (if i < encodedChunkSize then
        do {
          charByte \<leftarrow> strAt source i;
          if charByte < decodeOffset \<or> charByte > decodeMaxValue
          then Some (Inl (ErrInvalidByte (chunkIndex * encodedChunkSize + i) charByte))
          else do {
            encodedValue \<leftarrow> loadAt decodeTable (unat (charByte - decodeOffset));
            if encodedValue = ivEc
            then Some (Inl (ErrInvalidByte (chunkIndex * encodedChunkSize + i) charByte))
            else decodeChars chunkIndex (i + 1) source (value * codeSize + ucast encodedValue)
          }
        }
      else Some (Inr value))"
  by pat_completeness auto
termination
  by (relation "measure (\<lambda>(chunkIndex, i, source, value). encodedChunkSize - i)") auto

function decodeLoop :: "nat \<Rightarrow> nat \<Rightarrow> string \<Rightarrow> nat \<Rightarrow> byte list \<Rightarrow> (error + byte list) option" where
  "decodeLoop chunkIndex chunkCount source dst result =
     (if chunkIndex < chunkCount then
        do {
          r \<leftarrow> decodeChars chunkIndex 0 source 0;
          case r of
            Inl e \<Rightarrow> Some (Inl e)
          | Inr value \<Rightarrow> do {
              result' \<leftarrow> PutUint32 result dst value;
              _ \<leftarrow> sliceFrom result' (dst + byteChunkSize);
              source' \<leftarrow> sliceFrom source encodedChunkSize;
              decodeLoop (chunkIndex + 1) chunkCount source' (dst + byteChunkSize) result'
            }
        }
      else Some (Inr result))"
  by pat_completeness auto
termination
  by (relation "measure (\<lambda>(chunkIndex, chunkCount, source, dst, result). chunkCount - chunkIndex)") auto

text \<open>
  \<open>Decode\<close> returns the pair of the bytes and the error (a \<open>nil\<close> slice is the empty list);
  \<open>None\<close> is a run-time panic.
\<close>

definition Decode :: "string \<Rightarrow> (byte list \<times> error option) option" where
  "Decode source =
     (let sourceLen = length source;
          chunkCount = sourceLen div encodedChunkSize
      in if sourceLen \<noteq> chunkCount * encodedChunkSize
         then Some ([], Some (ErrInvalidLength encodedChunkSize))
         else
           let result = make (sourceLen - chunkCount)
           in map_option (\<lambda>r. case r of Inl e \<Rightarrow> ([], Some e) | Inr result \<Rightarrow> (result, None))
                (decodeLoop 0 chunkCount source 0 result))"

section \<open>Closed forms of the loops\<close>

text \<open>
  The functions of this section are not in the source: they describe what the loops of
  \<open>Encode\<close> and \<open>Decode\<close> compute, as plain recursion over the input, and the lemmas
  below prove that the loops compute exactly that.
\<close>

text \<open>The byte of the alphabet character of digit \<open>d\<close>.\<close>

definition digitChar :: "nat \<Rightarrow> byte" where
  "digitChar d = of_char (encodeTable ! d)"

text \<open>The \<open>k\<close> low base-85 digits of \<open>n\<close>, most significant first.\<close>

fun digitsBE :: "nat \<Rightarrow> nat \<Rightarrow> byte list" where
  "digitsBE 0 n = []"
| "digitsBE (Suc k) n = digitsBE k (n div 85) @ [digitChar (n mod 85)]"

text \<open>What \<open>Uint32\<close> reads from the four bytes \<open>a, b, c, d\<close>, and what \<open>PutUint32\<close> writes.\<close>

definition be32 :: "byte \<Rightarrow> byte \<Rightarrow> byte \<Rightarrow> byte \<Rightarrow> uint32" where
  "be32 a b c d = ucast d OR push_bit 8 (ucast c) OR push_bit 16 (ucast b) OR push_bit 24 (ucast a)"

definition bytesBE :: "uint32 \<Rightarrow> byte list" where
  "bytesBE v = [ucast (drop_bit 24 v), ucast (drop_bit 16 v), ucast (drop_bit 8 v), ucast v]"

text \<open>The bytes \<open>Encode\<close> writes for a whole input.\<close>

fun encodeAll :: "byte list \<Rightarrow> byte list" where
  "encodeAll (a # b # c # d # rest) = digitsBE 5 (unat (be32 a b c d)) @ encodeAll rest"
| "encodeAll _ = []"

text \<open>
  The two checks of \<open>Decode\<close>'s inner loop on one character: \<open>None\<close> when the loop
  returns \<open>ErrInvalidByte\<close>, else the table's entry.
\<close>

definition digitOf :: "char \<Rightarrow> byte option" where
  "digitOf c =
     (let charByte = of_char c :: byte in
      if charByte < decodeOffset \<or> charByte > decodeMaxValue then None
      else let encodedValue = decodeTable ! unat (charByte - decodeOffset)
           in if encodedValue = ivEc then None else Some encodedValue)"

text \<open>The inner loop of \<open>Decode\<close> over the characters \<open>cs\<close>, the first at position \<open>pos\<close>.\<close>

fun decodeDigits :: "nat \<Rightarrow> string \<Rightarrow> uint32 \<Rightarrow> error + uint32" where
  "decodeDigits pos [] value = Inr value"
| "decodeDigits pos (c # cs) value =
     (case digitOf c of
        None \<Rightarrow> Inl (ErrInvalidByte pos (of_char c))
      | Some e \<Rightarrow> decodeDigits (pos + 1) cs (value * 85 + ucast e))"

text \<open>The outer loop of \<open>Decode\<close> over a whole input that starts at position \<open>pos\<close>.\<close>

fun decodeAll :: "nat \<Rightarrow> string \<Rightarrow> error + byte list" where
  "decodeAll pos (c0 # c1 # c2 # c3 # c4 # rest) =
     (case decodeDigits pos [c0, c1, c2, c3, c4] 0 of
        Inl e \<Rightarrow> Inl e
      | Inr v \<Rightarrow> (case decodeAll (pos + 5) rest of
                    Inl e \<Rightarrow> Inl e
                  | Inr bs \<Rightarrow> Inr (bytesBE v @ bs)))"
| "decodeAll pos cs = Inr []"

section \<open>Notions of the specification\<close>

text \<open>
  The specification speaks of the big-endian value of a chunk of four bytes, of the digit
  of an alphabet character and of the base-85 value of a group of five characters.  The
  three definitions below follow its words; they are used in the statements about
  \<open>Encode\<close> and \<open>Decode\<close> only, never in the definitions of the two functions.
\<close>

text \<open>
  The value of chunk \<open>k\<close> of the input \<open>b\<close>, its four bytes read as a big-endian number.
\<close>

definition chunkValue :: "byte list \<Rightarrow> nat \<Rightarrow> nat" where
  "chunkValue b k =
     unat (b ! (4 * k)) * 2 ^ 24 + unat (b ! (4 * k + 1)) * 2 ^ 16 +
     unat (b ! (4 * k + 2)) * 2 ^ 8 + unat (b ! (4 * k + 3))"

text \<open>
  The digit of an alphabet character is its index in the alphabet; the value of group \<open>k\<close>
  of the text \<open>s\<close> is the base-85 number of its five digits, most significant first.
\<close>

definition alphabetIndex :: "char \<Rightarrow> nat" where
  "alphabetIndex c = length (takeWhile (\<lambda>x. x \<noteq> c) encodeTable)"

definition groupValue :: "string \<Rightarrow> nat \<Rightarrow> nat" where
  "groupValue s k =
     alphabetIndex (s ! (5 * k)) * 85 ^ 4 + alphabetIndex (s ! (5 * k + 1)) * 85 ^ 3 +
     alphabetIndex (s ! (5 * k + 2)) * 85 ^ 2 + alphabetIndex (s ! (5 * k + 3)) * 85 +
     alphabetIndex (s ! (5 * k + 4))"

section \<open>The loops compute their closed forms\<close>

declare encodeChars.simps [simp del] encodeLoop.simps [simp del]
  decodeChars.simps [simp del] decodeLoop.simps [simp del]

subsection \<open>The loops of \<open>Encode\<close>\<close>

lemma length_encodeTable: "length encodeTable = 85"
  by (simp add: encodeTable_def)

lemma length_digitsBE [simp]: "length (digitsBE k n) = k"
  by (induction k arbitrary: n) simp_all

lemma and_mask_mod4: "(n::nat) AND byteChunkMask = n mod 4"
proof -
  have "n AND mask 2 = n mod 2 ^ 2"
    by (simp only: take_bit_eq_mask [symmetric] take_bit_eq_mod)
  then show ?thesis
    by (simp add: byteChunkMask_def byteChunkSize_def mask_eq_exp_minus_1)
qed

lemma drop_bit_div4: "drop_bit byteChunkShift (n::nat) = n div 4"
  by (simp add: byteChunkShift_def drop_bit_eq_div)

lemma encode_digit:
  "strAt encodeTable (unat (value - value div codeSize * codeSize)) = Some (digitChar (unat value mod 85))"
  for "value" :: uint32
proof -
  have "value - value div codeSize * codeSize = value mod 85"
    by (simp add: codeSize_def minus_div_mult_eq_mod)
  moreover have "unat (value mod 85) = unat value mod 85"
    by (simp add: unat_mod)
  ultimately show ?thesis
    by (simp add: strAt_def loadAt_def length_encodeTable digitChar_def)
qed

lemma encodeChars_eq:
  "dst + i < length result \<Longrightarrow>
   encodeChars i value dst result =
     Some (take dst result @ digitsBE (Suc i) (unat value) @ drop (dst + Suc i) result)"
proof (induction i arbitrary: "value" result)
  case 0
  then show ?case
    by (simp add: encodeChars.simps [of 0] encode_digit storeAt_def upd_conv_take_nth_drop)
next
  case (Suc i)
  let ?c = "digitChar (unat value mod 85)"
  let ?r = "result[dst + Suc i := ?c]"
  have len: "dst + i < length ?r" using Suc.prems by simp
  have u: "unat (value div codeSize) = unat value div 85"
    by (simp add: codeSize_def unat_div)
  have "encodeChars (Suc i) value dst result = encodeChars i (value div codeSize) dst ?r"
    using Suc.prems by (simp add: encodeChars.simps [of "Suc i"] encode_digit storeAt_def Let_def)
  also have "\<dots> = Some (take dst ?r @ digitsBE (Suc i) (unat value div 85) @ drop (dst + Suc i) ?r)"
    using Suc.IH [OF len] by (simp only: u)
  also have "take dst ?r = take dst result" by simp
  also have "drop (dst + Suc i) ?r = ?c # drop (dst + Suc (Suc i)) result"
    using Suc.prems by (simp add: upd_conv_take_nth_drop)
  finally show ?case by simp
qed

lemma encodeLoop_eq:
  "length source = 4 * (chunkCount - chunkIndex) \<Longrightarrow>
   length result = dst + 5 * (chunkCount - chunkIndex) \<Longrightarrow>
   encodeLoop chunkIndex chunkCount source dst result = Some (take dst result @ encodeAll source)"
proof (induction chunkIndex chunkCount source dst result rule: encodeLoop.induct)
  case (1 chunkIndex chunkCount source dst result)
  show ?case
  proof (cases "chunkIndex < chunkCount")
    case False
    with "1.prems" show ?thesis
      by (simp add: encodeLoop.simps [of chunkIndex])
  next
    case True
    with "1.prems" have "4 \<le> length source" by simp
    then obtain a b c d rest where src: "source = a # b # c # d # rest"
      by (cases source rule: encodeAll.cases) simp_all
    let ?v = "be32 a b c d"
    let ?r = "take dst result @ digitsBE 5 (unat ?v) @ drop (dst + 5) result"
    have h: "sliceTo source byteChunkSize = Some [a, b, c, d]"
      by (simp add: src sliceTo_def byteChunkSize_def)
    have v: "Uint32 [a, b, c, d] = Some ?v"
      by (simp add: Uint32_def be32_def)
    have dsti: "dst + 4 < length result" using True "1.prems" by simp
    have e: "encodeChars byteChunkSize ?v dst result = Some ?r"
      using encodeChars_eq [OF dsti, of ?v] by (simp add: byteChunkSize_def)
    have lr: "length ?r = length result" using dsti by simp
    have sr: "sliceFrom ?r (dst + encodedChunkSize) = Some (drop (dst + 5) ?r)"
      using dsti by (simp add: sliceFrom_def encodedChunkSize_def)
    have ss: "sliceFrom source byteChunkSize = Some rest"
      by (simp add: src sliceFrom_def byteChunkSize_def)
    have l1: "length rest = 4 * (chunkCount - (chunkIndex + 1))"
      using True "1.prems" by (simp add: src)
    have l2: "length ?r = dst + encodedChunkSize + 5 * (chunkCount - (chunkIndex + 1))"
      using True "1.prems" lr by (simp add: encodedChunkSize_def)
    have "encodeLoop chunkIndex chunkCount source dst result =
          encodeLoop (chunkIndex + 1) chunkCount rest (dst + encodedChunkSize) ?r"
      using True by (simp add: encodeLoop.simps [of chunkIndex] h v e sr ss del: append_assoc)
    also have "\<dots> = Some (take (dst + encodedChunkSize) ?r @ encodeAll rest)"
      by (rule "1.IH" [OF True h v e sr ss l1 l2])
    also have "take (dst + encodedChunkSize) ?r = take dst result @ digitsBE 5 (unat ?v)"
      using dsti by (simp add: encodedChunkSize_def)
    finally show ?thesis by (simp add: src)
  qed
qed

lemma length_encodeAll: "length source = 4 * n \<Longrightarrow> length (encodeAll source) = 5 * n"
proof (induction source arbitrary: n rule: encodeAll.induct)
  case (1 a b c d rest)
  then obtain m where "n = Suc m" by (cases n) simp_all
  with 1 show ?case by simp
qed simp_all

lemma Encode_ok:
  assumes "length source mod 4 = 0"
  shows "Encode source = Some (string_of_bytes (encodeAll source), None)"
proof -
  let ?n = "length source div 4"
  have "length source = 4 * (?n - 0)" using assms by auto
  moreover have "length (make (length source + ?n)) = 0 + 5 * (?n - 0)"
    using assms by (auto simp: make_def)
  ultimately have "encodeLoop 0 ?n source 0 (make (length source + ?n)) = Some (encodeAll source)"
    using encodeLoop_eq [of source ?n 0 "make (length source + ?n)" 0] by simp
  then show ?thesis
    using assms by (simp add: Encode_def and_mask_mod4 drop_bit_div4)
qed

lemma Encode_bad_length:
  "length source mod 4 \<noteq> 0 \<Longrightarrow> Encode source = Some ('''', Some (ErrInvalidLength 4))"
  by (simp add: Encode_def and_mask_mod4 byteChunkSize_def)


subsection \<open>Big-endian words\<close>

lemma bytesBE_be32: "bytesBE (be32 a b c d) = [a, b, c, d]"
  unfolding bytesBE_def be32_def
  apply simp
  apply (intro conjI; rule bit_word_eqI; auto simp add: bit_simps dest: bit_imp_le_length)
  done

lemma be32_sum: "be32 a b c d = ucast d + (push_bit 8 (ucast c) + (push_bit 16 (ucast b) + push_bit 24 (ucast a)))"
proof -
  let ?a = "push_bit 24 (ucast a) :: uint32"
  let ?b = "push_bit 16 (ucast b) :: uint32"
  let ?c = "push_bit 8 (ucast c) :: uint32"
  let ?d = "ucast d :: uint32"
  have 1: "?b + ?a = ?b OR ?a"
    by (rule disjunctive_add) (auto simp: bit_simps dest: bit_imp_le_length)
  have 2: "?c + (?b OR ?a) = ?c OR (?b OR ?a)"
    by (rule disjunctive_add) (auto simp: bit_simps dest: bit_imp_le_length)
  have 3: "?d + (?c OR (?b OR ?a)) = ?d OR (?c OR (?b OR ?a))"
    by (rule disjunctive_add) (auto simp: bit_simps dest: bit_imp_le_length)
  show ?thesis
    unfolding be32_def by (simp only: 1 2 3)
qed

lemma unat_be32: "unat (be32 a b c d) = unat a * 2 ^ 24 + unat b * 2 ^ 16 + unat c * 2 ^ 8 + unat d"
proof -
  have "unat a < 256" "unat b < 256" "unat c < 256" "unat d < 256"
    using unsigned_less [of a, where ?'a = nat] unsigned_less [of b, where ?'a = nat] unsigned_less [of c, where ?'a = nat] unsigned_less [of d, where ?'a = nat] by simp_all
  then show ?thesis
    apply (simp add: be32_sum unat_word_ariths unsigned_push_bit_eq unsigned_ucast_eq take_bit_eq_mod push_bit_eq_mult)
    done
qed

subsection \<open>The loops of \<open>Decode\<close>\<close>

lemma length_decodeTable: "length decodeTable = 93"
  by (simp add: decodeTable_def)

lemma decodeOffset_eq: "decodeOffset = 33"
  by (simp add: decodeOffset_def)

lemma decodeMaxValue_eq: "decodeMaxValue = 125"
  by (simp add: decodeMaxValue_def length_decodeTable decodeOffset_eq)

lemma in_range_index: "\<not> (w < decodeOffset \<or> w > decodeMaxValue) \<Longrightarrow> unat (w - decodeOffset) < length decodeTable"
  by (auto simp add: decodeOffset_eq decodeMaxValue_eq length_decodeTable not_less word_le_nat_alt unat_sub)

lemma PutUint32_eq:
  "dst + 4 \<le> length result \<Longrightarrow>
   PutUint32 result dst v = Some (take dst result @ bytesBE v @ drop (dst + 4) result)"
  apply (simp add: PutUint32_def bytesBE_def)
  apply (rule nth_equalityI)
   apply simp
  apply (auto simp: nth_append nth_list_update nth_Cons')
  done

lemma ucast_drop_bit_of_nat:
  "(ucast (drop_bit k (of_nat N :: uint32)) :: byte) = of_nat (N mod 2 ^ 32 div 2 ^ k)"
proof -
  have "unat (ucast (drop_bit k (of_nat N :: uint32)) :: byte) =
        unat (drop_bit k (of_nat N :: uint32)) mod 256"
    by (simp add: unsigned_ucast_eq take_bit_eq_mod)
  also have "unat (drop_bit k (of_nat N :: uint32)) = drop_bit k (unat (of_nat N :: uint32))"
    by (rule unat_drop_bit_eq)
  also have "unat (of_nat N :: uint32) = N mod 2 ^ 32"
    by (simp add: unat_of_nat)
  finally have "unat (ucast (drop_bit k (of_nat N :: uint32)) :: byte) =
        unat (of_nat (N mod 2 ^ 32 div 2 ^ k) :: byte)"
    by (simp add: drop_bit_eq_div unat_of_nat)
  then show ?thesis
    by (simp only: word_unat_eq_iff)
qed

lemma decodeChars_eq:
  "i \<le> 5 \<Longrightarrow> 5 \<le> length source \<Longrightarrow>
   decodeChars chunkIndex i source value =
     Some (decodeDigits (chunkIndex * 5 + i) (drop i (take 5 source)) value)"
proof (induction "5 - i" arbitrary: i "value")
  case 0
  then have "i = 5" by simp
  then show ?case
    using "0.prems" by (simp add: decodeChars.simps [of chunkIndex 5] encodedChunkSize_def)
next
  case (Suc n)
  then have i: "i < 5" by simp
  with Suc.prems have il: "i < length source" by simp
  have d: "drop i (take 5 source) = source ! i # drop (Suc i) (take 5 source)"
    using i il Suc.prems Cons_nth_drop_Suc [of i "take 5 source", symmetric] by simp
  have s: "strAt source i = Some (of_char (source ! i))"
    using il by (simp add: strAt_def loadAt_def)
  have IH: "decodeChars chunkIndex (i + 1) source v =
      Some (decodeDigits (chunkIndex * 5 + (i + 1)) (drop (i + 1) (take 5 source)) v)" for v
    using Suc.hyps Suc.prems i by (intro Suc.hyps(1)) simp_all
  show ?case
  proof (cases "digitOf (source ! i)")
    case None
    then show ?thesis
      using i in_range_index [of "of_char (source ! i)"]
      by (auto simp add: decodeChars.simps [of chunkIndex i] encodedChunkSize_def s d digitOf_def
          loadAt_def Let_def split: if_splits)
  next
    case (Some e)
    then show ?thesis
      using i in_range_index [of "of_char (source ! i)"] IH
      by (auto simp add: decodeChars.simps [of chunkIndex i] encodedChunkSize_def codeSize_def s d digitOf_def
          loadAt_def Let_def split: if_splits)
  qed
qed

lemma decodeLoop_eq:
  "length source = 5 * (chunkCount - chunkIndex) \<Longrightarrow>
   length result = dst + 4 * (chunkCount - chunkIndex) \<Longrightarrow>
   decodeLoop chunkIndex chunkCount source dst result =
     Some (case decodeAll (chunkIndex * 5) source of
             Inl e \<Rightarrow> Inl e
           | Inr bs \<Rightarrow> Inr (take dst result @ bs))"
proof (induction chunkIndex chunkCount source dst result rule: decodeLoop.induct)
  case (1 chunkIndex chunkCount source dst result)
  show ?case
  proof (cases "chunkIndex < chunkCount")
    case False
    with "1.prems" show ?thesis
      by (simp add: decodeLoop.simps [of chunkIndex])
  next
    case True
    with "1.prems" have "5 \<le> length source" by simp
    then obtain c0 c1 c2 c3 c4 rest where src: "source = c0 # c1 # c2 # c3 # c4 # rest"
      by (cases "(0::nat, source)" rule: decodeAll.cases) simp_all
    have dc: "decodeChars chunkIndex 0 source 0 =
        Some (decodeDigits (chunkIndex * 5) [c0, c1, c2, c3, c4] 0)"
      using decodeChars_eq [of 0 source chunkIndex 0] by (simp add: src)
    have da: "decodeAll (chunkIndex * 5) source =
        (case decodeDigits (chunkIndex * 5) [c0, c1, c2, c3, c4] 0 of
           Inl e \<Rightarrow> Inl e
         | Inr v \<Rightarrow> (case decodeAll (chunkIndex * 5 + 5) rest of
                    Inl e \<Rightarrow> Inl e
                  | Inr bs \<Rightarrow> Inr (bytesBE v @ bs)))"
      by (simp only: src decodeAll.simps)
    show ?thesis
    proof (cases "decodeDigits (chunkIndex * 5) [c0, c1, c2, c3, c4] 0")
      case (Inl e)
      have "decodeLoop chunkIndex chunkCount source dst result = Some (Inl e)"
        using True by (simp add: decodeLoop.simps [of chunkIndex] dc Inl del: decodeDigits.simps)
      moreover have "decodeAll (chunkIndex * 5) source = Inl e"
        by (simp only: da Inl sum.case)
      ultimately show ?thesis by simp
    next
      case (Inr v)
      let ?r = "take dst result @ bytesBE v @ drop (dst + 4) result"
      have dsti: "dst + 4 \<le> length result" using True "1.prems" by simp
      have p: "PutUint32 result dst v = Some ?r"
        using dsti by (rule PutUint32_eq)
      have lr: "length ?r = length result" using dsti by (simp add: bytesBE_def)
      have sr: "sliceFrom ?r (dst + byteChunkSize) = Some (drop (dst + 4) ?r)"
        using dsti lr by (simp add: sliceFrom_def byteChunkSize_def del: length_append append_assoc)
      have ss: "sliceFrom source encodedChunkSize = Some rest"
        by (simp add: src sliceFrom_def encodedChunkSize_def)
      have l1: "length rest = 5 * (chunkCount - (chunkIndex + 1))"
        using True "1.prems" by (simp add: src)
      have l2: "length ?r = dst + byteChunkSize + 4 * (chunkCount - (chunkIndex + 1))"
        using True "1.prems" lr by (simp add: byteChunkSize_def)
      have "decodeLoop chunkIndex chunkCount source dst result =
            decodeLoop (chunkIndex + 1) chunkCount rest (dst + byteChunkSize) ?r"
        using True by (simp add: decodeLoop.simps [of chunkIndex] dc Inr p sr ss
            del: append_assoc decodeDigits.simps)
      also have "\<dots> = Some (case decodeAll ((chunkIndex + 1) * 5) rest of
             Inl e \<Rightarrow> Inl e
           | Inr bs \<Rightarrow> Inr (take (dst + byteChunkSize) ?r @ bs))"
        using dc Inr by (intro "1.IH" [OF True _ _ p sr ss l1 l2]) (simp_all del: decodeDigits.simps)
      also have "take (dst + byteChunkSize) ?r = take dst result @ bytesBE v"
        using dsti by (simp add: byteChunkSize_def bytesBE_def)
      finally have "decodeLoop chunkIndex chunkCount source dst result =
          Some (case decodeAll (chunkIndex * 5 + 5) rest of
             Inl e \<Rightarrow> Inl e
           | Inr bs \<Rightarrow> Inr (take dst result @ bytesBE v @ bs))"
        by (simp add: add.commute split: sum.splits)
      moreover have "decodeAll (chunkIndex * 5) source =
          (case decodeAll (chunkIndex * 5 + 5) rest of
                    Inl e \<Rightarrow> Inl e
                  | Inr bs \<Rightarrow> Inr (bytesBE v @ bs))"
        by (simp only: da Inr sum.case)
      ultimately show ?thesis by (simp split: sum.splits)
    qed
  qed
qed

lemma Decode_eq:
  assumes "length source mod 5 = 0"
  shows "Decode source =
    Some (case decodeAll 0 source of Inl e \<Rightarrow> ([], Some e) | Inr bs \<Rightarrow> (bs, None))"
proof -
  let ?n = "length source div 5"
  have "length source = 5 * (?n - 0)" using assms by auto
  moreover have "length (make (length source - ?n)) = 0 + 4 * (?n - 0)"
    using assms by (auto simp: make_def)
  ultimately have "decodeLoop 0 ?n source 0 (make (length source - ?n)) =
      Some (case decodeAll 0 source of Inl e \<Rightarrow> Inl e | Inr bs \<Rightarrow> Inr bs)"
    using decodeLoop_eq [of source ?n 0 "make (length source - ?n)" 0]
    by (simp split: sum.splits)
  then show ?thesis
    using assms by (auto simp add: Decode_def encodedChunkSize_def Let_def split: sum.splits)
qed

lemma Decode_bad_length:
  assumes "length source mod 5 \<noteq> 0"
  shows "Decode source = Some ([], Some (ErrInvalidLength 5))"
proof -
  have "length source \<noteq> length source div 5 * 5"
    using assms by presburger
  then show ?thesis
    by (simp add: Decode_def encodedChunkSize_def Let_def)
qed


lemma decodeDigits_Inl: "decodeDigits pos cs v = Inl e \<Longrightarrow> \<exists>p c. e = ErrInvalidByte p c"
  by (induction cs arbitrary: pos v) (auto split: option.splits)

lemma decodeAll_Inl: "decodeAll pos s = Inl e \<Longrightarrow> \<exists>p c. e = ErrInvalidByte p c"
proof (induction pos s rule: decodeAll.induct)
  case (1 pos c0 c1 c2 c3 c4 rest)
  then show ?case
    by (auto simp del: decodeDigits.simps split: sum.splits dest: decodeDigits_Inl)
qed simp_all

lemma length_decodeAll: "length s = 5 * n \<Longrightarrow> decodeAll pos s = Inr bs \<Longrightarrow> length bs = 4 * n"
proof (induction pos s arbitrary: n bs rule: decodeAll.induct)
  case (1 pos c0 c1 c2 c3 c4 rest)
  from "1.prems"(1) obtain m where n: "n = Suc m" by (cases n) simp_all
  from "1.prems"(2) obtain v bs' where v: "decodeDigits pos [c0, c1, c2, c3, c4] 0 = Inr v"
    and r: "decodeAll (pos + 5) rest = Inr bs'" and bs: "bs = bytesBE v @ bs'"
    by (auto simp del: decodeDigits.simps split: sum.splits)
  have "length rest = 5 * m" using "1.prems"(1) n by simp
  then have "length bs' = 4 * m" using r v by (intro "1.IH") simp_all
  then show ?case by (simp add: bs n bytesBE_def)
qed simp_all

subsection \<open>The two tables invert each other\<close>

lemma distinct_encodeTable: "distinct encodeTable"
  by (simp add: encodeTable_def)

lemma digitOf_alphabet: "\<forall>d \<in> set [0..<85]. digitOf (encodeTable ! d) = Some (of_nat d)"
  by code_simp

lemma digitOf_nth: "d < 85 \<Longrightarrow> digitOf (encodeTable ! d) = Some (of_nat d)"
  using digitOf_alphabet by simp

lemma digitOf_outside: "\<forall>c. c \<notin> set encodeTable \<longrightarrow> digitOf c = None"
  by code_simp

lemma digitOf_None_iff: "digitOf c = None \<longleftrightarrow> c \<notin> set encodeTable"
proof
  assume n: "digitOf c = None"
  show "c \<notin> set encodeTable"
  proof
    assume "c \<in> set encodeTable"
    then obtain d where "d < 85" "encodeTable ! d = c"
      by (auto simp add: in_set_conv_nth length_encodeTable)
    with digitOf_nth [of d] n show False by simp
  qed
next
  assume "c \<notin> set encodeTable"
  with digitOf_outside show "digitOf c = None" by blast
qed

lemma unat_of_char: "unat (of_char c :: byte) = of_char c"
proof -
  have "(of_char c :: byte) = of_nat (of_char c)"
    by (simp only: of_nat_of_char)
  then show ?thesis
    by (simp add: unat_of_nat)
qed

lemma char_of_digitChar: "char_of (unat (digitChar d)) = encodeTable ! d"
  by (simp add: digitChar_def unat_of_char)

lemma ucast_of_nat_byte: "m < 256 \<Longrightarrow> (ucast (of_nat m :: byte) :: uint32) = of_nat m"
  by (simp add: word_eq_iff_unsigned [where ?'a = nat] unsigned_ucast_eq unsigned_of_nat take_bit_eq_mod)

subsection \<open>Decoding what \<open>Encode\<close> wrote\<close>

lemma decodeDigits_append:
  "decodeDigits pos (xs @ ys) v =
     (case decodeDigits pos xs v of
        Inl e \<Rightarrow> Inl e
      | Inr v' \<Rightarrow> decodeDigits (pos + length xs) ys v')"
  by (induction xs arbitrary: pos v) (auto split: option.splits sum.splits)

lemma decodeDigits_digitsBE:
  "decodeDigits pos (string_of_bytes (digitsBE k n)) v = Inr (v * 85 ^ k + of_nat (n mod 85 ^ k))"
proof (induction k arbitrary: n)
  case 0
  show ?case by (simp add: string_of_bytes_def)
next
  case (Suc k)
  have m: "n mod (85 * 85 ^ k) = 85 * (n div 85 mod 85 ^ k) + n mod 85"
    by (simp add: mod_mult2_eq)
  have d: "digitOf (encodeTable ! (n mod 85)) = Some (of_nat (n mod 85))"
    by (rule digitOf_nth) simp
  have u: "(ucast (of_nat (n mod 85) :: byte) :: uint32) = of_nat (n mod 85)"
    by (rule ucast_of_nat_byte) (simp add: less_trans [OF mod_less_divisor])
  have s: "string_of_bytes (digitsBE (Suc k) n) =
      string_of_bytes (digitsBE k (n div 85)) @ [encodeTable ! (n mod 85)]"
    by (simp add: string_of_bytes_def char_of_digitChar)
  show ?case
    unfolding s decodeDigits_append Suc.IH
    by (simp add: d u m algebra_simps)
qed

lemma digitsBE_5:
  "digitsBE 5 n = [digitChar (n div 85 div 85 div 85 div 85 mod 85), digitChar (n div 85 div 85 div 85 mod 85),
     digitChar (n div 85 div 85 mod 85), digitChar (n div 85 mod 85), digitChar (n mod 85)]"
proof -
  have "(5::nat) = Suc (Suc (Suc (Suc (Suc 0))))" by simp
  then show ?thesis by (simp only: digitsBE.simps append.simps)
qed

lemma decodeAll_encodeAll:
  "length b = 4 * n \<Longrightarrow> decodeAll pos (string_of_bytes (encodeAll b)) = Inr b"
proof (induction b arbitrary: n pos rule: encodeAll.induct)
  case (1 a b c d rest)
  then obtain m where "n = Suc m" by (cases n) simp_all
  with "1.prems" have "length rest = 4 * m" by simp
  then have IH: "decodeAll (pos + 5) (string_of_bytes (encodeAll rest)) = Inr rest"
    by (rule "1.IH")
  let ?v = "be32 a b c d"
  obtain x0 x1 x2 x3 x4 where x: "string_of_bytes (digitsBE 5 (unat ?v)) = [x0, x1, x2, x3, x4]"
    by (simp add: digitsBE_5 string_of_bytes_def)
  have "unat ?v < 2 ^ 32"
    using unsigned_less [of ?v, where ?'a = nat] by simp
  then have "unat ?v mod 85 ^ 5 = unat ?v" by simp
  then have "decodeDigits pos [x0, x1, x2, x3, x4] 0 = Inr ?v"
    using decodeDigits_digitsBE [of pos 5 "unat ?v" 0] by (simp only: x) simp
  moreover have "string_of_bytes (encodeAll (a # b # c # d # rest)) =
      x0 # x1 # x2 # x3 # x4 # string_of_bytes (encodeAll rest)"
    using x by (simp add: string_of_bytes_def)
  ultimately show ?case
    by (simp add: IH bytesBE_be32 del: decodeDigits.simps)
qed (simp_all add: string_of_bytes_def, arith+)

subsection \<open>The characters of a chunk\<close>

lemma nth_digitsBE: "j < k \<Longrightarrow> digitsBE k n ! j = digitChar (n div 85 ^ (k - 1 - j) mod 85)"
proof (induction k arbitrary: n)
  case 0
  then show ?case by simp
next
  case (Suc k)
  show ?case
  proof (cases "j < k")
    case True
    then have "k - j = Suc (k - 1 - j)" by simp
    then have "n div 85 div 85 ^ (k - 1 - j) = n div 85 ^ (k - j)"
      by (simp add: div_mult2_eq)
    with True Suc.IH [OF True, of "n div 85"] show ?thesis
      by (simp add: nth_append)
  next
    case False
    with Suc.prems have "j = k" by simp
    then show ?thesis by (simp add: nth_append)
  qed
qed

lemma chunkValue_0: "chunkValue (a # b # c # d # rest) 0 = unat (be32 a b c d)"
  by (simp add: chunkValue_def unat_be32)

lemma chunkValue_Suc: "chunkValue (a # b # c # d # rest) (Suc k) = chunkValue rest k"
  by (simp add: chunkValue_def add.commute)

lemma nth_encodeAll:
  "length b = 4 * n \<Longrightarrow> k < n \<Longrightarrow> j < 5 \<Longrightarrow>
   encodeAll b ! (5 * k + j) = digitChar (chunkValue b k div 85 ^ (4 - j) mod 85)"
proof (induction b arbitrary: n k rule: encodeAll.induct)
  case (1 a b c d rest)
  from "1.prems" obtain m where n: "n = Suc m" by (cases n) simp_all
  with "1.prems" have l: "length rest = 4 * m" by simp
  show ?case
  proof (cases k)
    case 0
    with "1.prems" show ?thesis
      by (simp add: nth_append nth_digitsBE chunkValue_0)
  next
    case (Suc k')
    with "1.prems" n have k': "k' < m" by simp
    have "5 * k + j = 5 + (5 * k' + j)" using Suc by simp
    then have "encodeAll (a # b # c # d # rest) ! (5 * k + j) = encodeAll rest ! (5 * k' + j)"
      by (simp add: nth_append)
    also have "\<dots> = digitChar (chunkValue rest k' div 85 ^ (4 - j) mod 85)"
      using l k' "1.prems"(3) by (rule "1.IH")
    finally show ?thesis by (simp add: Suc chunkValue_Suc)
  qed
qed simp_all

subsection \<open>The first character outside the alphabet\<close>

lemma decodeDigits_first_invalid:
  "p < length cs \<Longrightarrow> cs ! p \<notin> set encodeTable \<Longrightarrow> \<forall>i<p. cs ! i \<in> set encodeTable \<Longrightarrow>
   decodeDigits pos cs v = Inl (ErrInvalidByte (pos + p) (of_char (cs ! p)))"
proof (induction cs arbitrary: pos p v)
  case Nil
  then show ?case by simp
next
  case (Cons c cs)
  show ?case
  proof (cases p)
    case 0
    with Cons.prems show ?thesis by (simp add: digitOf_None_iff [symmetric])
  next
    case (Suc q)
    with Cons.prems have "c \<in> set encodeTable" by auto
    then obtain e where e: "digitOf c = Some e"
      using digitOf_None_iff [of c] by auto
    have "decodeDigits (pos + 1) cs (v * 85 + ucast e) =
        Inl (ErrInvalidByte (pos + 1 + q) (of_char (cs ! q)))"
      using Cons.prems Suc by (intro Cons.IH) auto
    then show ?thesis by (simp add: e Suc)
  qed
qed

lemma decodeDigits_all_valid:
  "\<forall>c\<in>set cs. c \<in> set encodeTable \<Longrightarrow> \<exists>v'. decodeDigits pos cs v = Inr v'"
proof (induction cs arbitrary: pos v)
  case Nil
  then show ?case by simp
next
  case (Cons c cs)
  then obtain e where e: "digitOf c = Some e"
    using digitOf_None_iff [of c] by auto
  with Cons show ?case by simp
qed

lemma decodeAll_first_invalid:
  "length s = 5 * n \<Longrightarrow> p < length s \<Longrightarrow> s ! p \<notin> set encodeTable \<Longrightarrow>
   \<forall>i<p. s ! i \<in> set encodeTable \<Longrightarrow>
   decodeAll pos s = Inl (ErrInvalidByte (pos + p) (of_char (s ! p)))"
proof (induction pos s arbitrary: n p rule: decodeAll.induct)
  case (1 pos c0 c1 c2 c3 c4 rest)
  let ?cs = "[c0, c1, c2, c3, c4]"
  from "1.prems"(1) obtain m where n: "n = Suc m" by (cases n) simp_all
  with "1.prems"(1) have l: "length rest = 5 * m" by simp
  have at5: "(c0 # c1 # c2 # c3 # c4 # rest) ! i = ?cs ! i" if "i < 5" for i
    using that nth_append [of ?cs rest i] by simp
  have at: "(c0 # c1 # c2 # c3 # c4 # rest) ! (5 + i) = rest ! i" for i
    using nth_append_length_plus [of ?cs rest i] by simp
  show ?case
  proof (cases "p < 5")
    case True
    have "?cs ! p \<notin> set encodeTable"
      using "1.prems"(3) unfolding at5 [OF True] .
    moreover have "\<forall>i<p. ?cs ! i \<in> set encodeTable"
    proof (intro allI impI)
      fix i assume i: "i < p"
      with True have i5: "i < 5" by simp
      from "1.prems"(4) i have "(c0 # c1 # c2 # c3 # c4 # rest) ! i \<in> set encodeTable"
        by blast
      then show "?cs ! i \<in> set encodeTable" unfolding at5 [OF i5] .
    qed
    ultimately have "decodeDigits pos ?cs 0 = Inl (ErrInvalidByte (pos + p) (of_char (?cs ! p)))"
      using True by (intro decodeDigits_first_invalid) simp_all
    then show ?thesis
      by (simp add: at5 [OF True] del: decodeDigits.simps)
  next
    case False
    then obtain q where q: "p = 5 + q" using le_Suc_ex [of 5 p] by auto
    have "c0 \<in> set encodeTable" "c1 \<in> set encodeTable" "c2 \<in> set encodeTable"
      "c3 \<in> set encodeTable" "c4 \<in> set encodeTable"
      using "1.prems"(4) [rule_format, of 0] "1.prems"(4) [rule_format, of 1]
        "1.prems"(4) [rule_format, of 2] "1.prems"(4) [rule_format, of 3]
        "1.prems"(4) [rule_format, of 4] q by simp_all
    then have "\<forall>c\<in>set ?cs. c \<in> set encodeTable" by simp
    then obtain v where v: "decodeDigits pos ?cs 0 = Inr v"
      using decodeDigits_all_valid by blast
    have "\<forall>i<q. rest ! i \<in> set encodeTable"
    proof (intro allI impI)
      fix i assume "i < q"
      then have "5 + i < p" using q by simp
      with "1.prems"(4) have "(c0 # c1 # c2 # c3 # c4 # rest) ! (5 + i) \<in> set encodeTable"
        by blast
      then show "rest ! i \<in> set encodeTable" unfolding at .
    qed
    moreover have "q < length rest" using "1.prems"(2) q by simp
    moreover have "rest ! q \<notin> set encodeTable"
      using "1.prems"(3) unfolding q at .
    ultimately have "decodeAll (pos + 5) rest = Inl (ErrInvalidByte (pos + 5 + q) (of_char (rest ! q)))"
      using l v by (intro "1.IH") simp_all
    then show ?thesis
      unfolding q by (simp add: v at del: decodeDigits.simps)
  qed
qed (simp_all, arith+)

subsection \<open>The bytes of a group\<close>

lemma alphabetIndex_less:
  assumes "c \<in> set encodeTable"
  shows "alphabetIndex c < 85"
proof (rule ccontr)
  assume "\<not> alphabetIndex c < 85"
  moreover have "alphabetIndex c \<le> length encodeTable"
    unfolding alphabetIndex_def by (rule length_takeWhile_le)
  ultimately have "length (takeWhile (\<lambda>x. x \<noteq> c) encodeTable) = length encodeTable"
    by (simp add: alphabetIndex_def length_encodeTable)
  then have "takeWhile (\<lambda>x. x \<noteq> c) encodeTable = encodeTable"
    using takeWhile_eq_take [of "\<lambda>x. x \<noteq> c" encodeTable] by simp
  then have "\<forall>x\<in>set encodeTable. x \<noteq> c"
    by (simp only: takeWhile_eq_all_conv)
  with assms show False by blast
qed

lemma nth_alphabetIndex: "c \<in> set encodeTable \<Longrightarrow> encodeTable ! alphabetIndex c = c"
  using nth_length_takeWhile [of "\<lambda>x. x \<noteq> c" encodeTable] alphabetIndex_less [of c]
  by (simp add: alphabetIndex_def length_encodeTable)

lemma digitOf_alphabetIndex:
  "c \<in> set encodeTable \<Longrightarrow> digitOf c = Some (of_nat (alphabetIndex c))"
  using digitOf_nth [OF alphabetIndex_less, of c] by (simp add: nth_alphabetIndex)

lemma decodeDigits_Inr_valid:
  "decodeDigits pos cs v = Inr v' \<Longrightarrow> \<forall>c\<in>set cs. c \<in> set encodeTable"
proof (induction cs arbitrary: pos v)
  case Nil
  then show ?case by simp
next
  case (Cons c cs)
  then obtain e where e: "digitOf c = Some e"
    by (auto split: option.splits)
  then have "c \<in> set encodeTable" using digitOf_None_iff [of c] by auto
  with Cons e show ?case by auto
qed

lemma decodeDigits_group:
  assumes "c0 \<in> set encodeTable" "c1 \<in> set encodeTable" "c2 \<in> set encodeTable"
    "c3 \<in> set encodeTable" "c4 \<in> set encodeTable"
  shows "decodeDigits pos [c0, c1, c2, c3, c4] 0 =
    Inr (of_nat (alphabetIndex c0 * 85 ^ 4 + alphabetIndex c1 * 85 ^ 3 + alphabetIndex c2 * 85 ^ 2 +
      alphabetIndex c3 * 85 + alphabetIndex c4))"
proof -
  have u: "(ucast (of_nat (alphabetIndex c) :: byte) :: uint32) = of_nat (alphabetIndex c)"
    if "c \<in> set encodeTable" for c
    using alphabetIndex_less [OF that] by (intro ucast_of_nat_byte) simp
  show ?thesis
    using assms by (simp add: digitOf_alphabetIndex u algebra_simps)
qed

lemma groupValue_0:
  "groupValue (c0 # c1 # c2 # c3 # c4 # rest) 0 =
     alphabetIndex c0 * 85 ^ 4 + alphabetIndex c1 * 85 ^ 3 + alphabetIndex c2 * 85 ^ 2 +
     alphabetIndex c3 * 85 + alphabetIndex c4"
  by (simp add: groupValue_def)

lemma groupValue_Suc: "groupValue (c0 # c1 # c2 # c3 # c4 # rest) (Suc k) = groupValue rest k"
  by (simp add: groupValue_def add.commute)

lemma length_bytesBE: "length (bytesBE v) = 4"
  by (simp add: bytesBE_def)

lemma nth_decodeAll:
  "decodeAll pos s = Inr bs \<Longrightarrow> length s = 5 * n \<Longrightarrow> k < n \<Longrightarrow> j < 4 \<Longrightarrow>
   bs ! (4 * k + j) = bytesBE (of_nat (groupValue s k)) ! j"
proof (induction pos s arbitrary: n k bs rule: decodeAll.induct)
  case (1 pos c0 c1 c2 c3 c4 rest)
  let ?cs = "[c0, c1, c2, c3, c4]"
  from "1.prems"(2) "1.prems"(3) obtain m where n: "n = Suc m" by (cases n) simp_all
  with "1.prems"(2) have l: "length rest = 5 * m" by simp
  from "1.prems"(1) obtain v bs' where v: "decodeDigits pos ?cs 0 = Inr v"
    and r: "decodeAll (pos + 5) rest = Inr bs'" and bs: "bs = bytesBE v @ bs'"
    by (auto simp del: decodeDigits.simps split: sum.splits)
  have "\<forall>c\<in>set ?cs. c \<in> set encodeTable"
    using v by (rule decodeDigits_Inr_valid)
  then have "decodeDigits pos ?cs 0 = Inr (of_nat (groupValue (c0 # c1 # c2 # c3 # c4 # rest) 0))"
    unfolding groupValue_0 by (intro decodeDigits_group) simp_all
  with v have v0: "v = of_nat (groupValue (c0 # c1 # c2 # c3 # c4 # rest) 0)" by simp
  show ?case
  proof (cases k)
    case 0
    with "1.prems"(4) show ?thesis
      by (simp add: bs nth_append length_bytesBE v0)
  next
    case (Suc k')
    with "1.prems"(3) n have k': "k' < m" by simp
    have "4 * k + j = 4 + (4 * k' + j)" using Suc by simp
    then have "bs ! (4 * k + j) = bs' ! (4 * k' + j)"
      by (simp add: bs nth_append length_bytesBE)
    also have "\<dots> = bytesBE (of_nat (groupValue rest k')) ! j"
      using v r l k' "1.prems"(4) by (intro "1.IH") simp_all
    finally show ?thesis by (simp add: Suc groupValue_Suc)
  qed
qed simp_all

lemma decodeAll_all_valid:
  "\<forall>c\<in>set s. c \<in> set encodeTable \<Longrightarrow> \<exists>bs. decodeAll pos s = Inr bs"
proof (induction pos s rule: decodeAll.induct)
  case (1 pos c0 c1 c2 c3 c4 rest)
  from "1.prems" have "\<forall>c\<in>set [c0, c1, c2, c3, c4]. c \<in> set encodeTable" by simp
  then obtain v where v: "decodeDigits pos [c0, c1, c2, c3, c4] 0 = Inr v"
    using decodeDigits_all_valid by blast
  moreover from "1.prems" have "\<forall>c\<in>set rest. c \<in> set encodeTable" by simp
  then obtain bs where "decodeAll (pos + 5) rest = Inr bs"
    using "1.IH" v by blast
  ultimately show ?case by (simp del: decodeDigits.simps)
qed simp_all

lemma decodeAll_error_position:
  assumes "length s = 5 * n" and "decodeAll pos s = Inl (ErrInvalidByte p v)"
  shows "\<exists>q<length s. p = pos + q \<and> s ! q \<notin> set encodeTable"
proof -
  have "\<not> (\<forall>c\<in>set s. c \<in> set encodeTable)"
    using decodeAll_all_valid [of s pos] assms(2) by auto
  then have ex: "\<exists>i. i < length s \<and> s ! i \<notin> set encodeTable"
    by (auto simp add: in_set_conv_nth)
  define q where "q = (LEAST i. i < length s \<and> s ! i \<notin> set encodeTable)"
  have q: "q < length s \<and> s ! q \<notin> set encodeTable"
    unfolding q_def using ex by (rule LeastI_ex)
  have "\<forall>i<q. s ! i \<in> set encodeTable"
  proof (intro allI impI)
    fix i assume "i < q"
    then have "\<not> (i < length s \<and> s ! i \<notin> set encodeTable)"
      unfolding q_def by (rule not_less_Least)
    with \<open>i < q\<close> q show "s ! i \<in> set encodeTable" by simp
  qed
  with assms(1) q have "decodeAll pos s = Inl (ErrInvalidByte (pos + q) (of_char (s ! q)))"
    by (intro decodeAll_first_invalid) simp_all
  with assms(2) q show ?thesis by auto
qed

lemma byte_of_nat_mod: "(of_nat (n mod 256) :: byte) = of_nat n"
  by (simp add: word_unat_eq_iff unat_of_nat)

subsection \<open>The tables, character by character\<close>

lemma alphabet_printable:
  "\<forall>c\<in>set encodeTable. 33 \<le> (of_char c :: nat) \<and> (of_char c :: nat) \<le> 126"
  by (simp add: encodeTable_def)

lemma byte_of_nat_inj: "m < 256 \<Longrightarrow> n < 256 \<Longrightarrow> (of_nat m :: byte) = of_nat n \<Longrightarrow> m = n"
  by (simp add: word_unat_eq_iff unat_of_nat)

lemma digitOf_in_range:
  assumes "decodeOffset \<le> of_char c \<and> (of_char c :: byte) \<le> decodeMaxValue"
  shows "digitOf c =
    (if decodeTable ! unat ((of_char c :: byte) - decodeOffset) = ivEc then None
     else Some (decodeTable ! unat ((of_char c :: byte) - decodeOffset)))"
  using assms by (auto simp add: digitOf_def Let_def)

lemma decodeTable_inverse:
  assumes r: "decodeOffset \<le> of_char c \<and> (of_char c :: byte) \<le> decodeMaxValue"
  shows "(\<forall>v<85. (decodeTable ! unat ((of_char c :: byte) - decodeOffset) = of_nat v) =
               (encodeTable ! v = c)) \<and>
     (c \<notin> set encodeTable \<longrightarrow> decodeTable ! unat ((of_char c :: byte) - decodeOffset) = ivEc)"
proof (intro conjI allI impI)
  let ?e = "decodeTable ! unat ((of_char c :: byte) - decodeOffset)"
  fix v :: nat assume v: "v < 85"
  show "(?e = of_nat v) = (encodeTable ! v = c)"
  proof
    assume e: "?e = of_nat v"
    have "(of_nat v :: byte) \<noteq> ivEc"
    proof
      assume "(of_nat v :: byte) = ivEc"
      then have "unat (of_nat v :: byte) = unat ivEc" by simp
      with v show False by (simp add: unat_of_nat ivEc_def)
    qed
    then have "?e \<noteq> ivEc" unfolding e .
    then have d: "digitOf c = Some (of_nat v)"
      by (simp add: digitOf_in_range [OF r] e)
    then have "c \<in> set encodeTable" using digitOf_None_iff [of c] by simp
    then obtain d where "d < 85" "encodeTable ! d = c"
      by (auto simp add: in_set_conv_nth length_encodeTable)
    with d digitOf_nth [of d] have "(of_nat d :: byte) = of_nat v" by simp
    with \<open>d < 85\<close> v have "d = v"
      by (intro byte_of_nat_inj) simp_all
    with \<open>encodeTable ! d = c\<close> show "encodeTable ! v = c" by simp
  next
    assume "encodeTable ! v = c"
    with digitOf_nth [OF v] have "digitOf c = Some (of_nat v)" by simp
    then show "?e = of_nat v"
      by (simp add: digitOf_in_range [OF r] split: if_splits)
  qed
next
  assume "c \<notin> set encodeTable"
  then have "digitOf c = None" by (simp add: digitOf_None_iff)
  then show "decodeTable ! unat ((of_char c :: byte) - decodeOffset) = ivEc"
    by (simp add: digitOf_in_range [OF r] split: if_splits)
qed

lemma alphabet_in_range:
  assumes "(of_char c :: byte) < decodeOffset \<or> decodeMaxValue < (of_char c :: byte)"
  shows "c \<notin> set encodeTable"
proof -
  from assms have "digitOf c = None" by (auto simp add: digitOf_def)
  then show ?thesis by (simp add: digitOf_None_iff)
qed

lemma decodeChars_out_of_range:
  assumes "(of_char c :: byte) < decodeOffset \<or> decodeMaxValue < (of_char c :: byte)"
    and "i < 5" and "i < length source" and "source ! i = c"
  shows "decodeChars chunkIndex i source value =
    Some (Inl (ErrInvalidByte (chunkIndex * 5 + i) (of_char c)))"
  using assms
  by (simp add: decodeChars.simps [of chunkIndex i] strAt_def loadAt_def encodedChunkSize_def)

lemma first_outside_ex:
  assumes "\<exists>c\<in>set s. c \<notin> A"
  shows "\<exists>p<length s. s ! p \<notin> A \<and> (\<forall>i<p. s ! i \<in> A)"
proof -
  from assms have ex: "\<exists>i. i < length s \<and> s ! i \<notin> A"
    by (auto simp add: in_set_conv_nth)
  define q where "q = (LEAST i. i < length s \<and> s ! i \<notin> A)"
  have q: "q < length s \<and> s ! q \<notin> A"
    unfolding q_def using ex by (rule LeastI_ex)
  have "\<forall>i<q. s ! i \<in> A"
  proof (intro allI impI)
    fix i assume "i < q"
    then have "\<not> (i < length s \<and> s ! i \<notin> A)"
      unfolding q_def by (rule not_less_Least)
    with \<open>i < q\<close> q show "s ! i \<in> A" by simp
  qed
  with q show ?thesis by blast
qed

subsection \<open>The errors that are returned\<close>

lemma Error_invalid_length_examples:
  "Error (ErrInvalidLength 4) = ''input length is not a multiple of 4'' \<and>
   Error (ErrInvalidLength 5) = ''input length is not a multiple of 5''"
  by code_simp

lemma Error_invalid_byte_examples:
  "Error (ErrInvalidByte 3 0x7E) = ''invalid byte at position 3: '' @ [CHR 0x27, CHR ''~'', CHR 0x27] \<and>
   Error (ErrInvalidByte 12 0x2C) = ''invalid byte at position 12: '' @ [CHR 0x27, CHR '','', CHR 0x27]"
  by code_simp

lemma Encode_error:
  assumes "Encode b = Some (s, Some e)"
  shows "e = ErrInvalidLength 4 \<and> s = ''''"
proof (cases "length b mod 4 = 0")
  case True
  with assms show ?thesis by (simp add: Encode_ok)
next
  case False
  with assms show ?thesis by (simp add: Encode_bad_length)
qed

lemma Decode_error:
  assumes "Decode t = Some (r, Some e)"
  shows "r = [] \<and> (e = ErrInvalidLength 5 \<or> (\<exists>p<length t. \<exists>v. e = ErrInvalidByte p v))"
proof (cases "length t mod 5 = 0")
  case False
  with assms show ?thesis by (simp add: Decode_bad_length)
next
  case True
  with assms have d: "decodeAll 0 t = Inl e" and r: "r = []"
    by (auto simp add: Decode_eq split: sum.splits)
  from d obtain p v where e: "e = ErrInvalidByte p v"
    using decodeAll_Inl by blast
  from True have "length t = 5 * (length t div 5)" by auto
  with d e obtain q where "q < length t" "p = 0 + q"
    using decodeAll_error_position [of t "length t div 5" 0 p v] by auto
  with e r show ?thesis by auto
qed

lemma IsErr_package_errors:
  "IsErrInvalidLength (Some (ErrInvalidLength d))" "\<not> IsErrInvalidByte (Some (ErrInvalidLength d))"
  "IsErrInvalidByte (Some (ErrInvalidByte p v))" "\<not> IsErrInvalidLength (Some (ErrInvalidByte p v))"
  by (simp_all add: IsErrInvalidLength_def IsErrInvalidByte_def)

lemma IsErr_foreign:
  "IsErrInvalidLength (Some (Foreign m w)) = IsErrInvalidLength w"
  "IsErrInvalidByte (Some (Foreign m w)) = IsErrInvalidByte w"
  by (simp_all add: IsErrInvalidLength_def IsErrInvalidByte_def)

lemma IsErr_nil: "\<not> IsErrInvalidLength None" "\<not> IsErrInvalidByte None"
  by (simp_all add: IsErrInvalidLength_def IsErrInvalidByte_def)

lemma foreign_unclassified:
  "\<not> IsErrInvalidLength (Some (Foreign m None)) \<and> \<not> IsErrInvalidByte (Some (Foreign m None))"
  by (simp add: IsErr_foreign IsErr_nil)

section \<open>Properties of \<open>Encode\<close> and \<open>Decode\<close>\<close>

text \<open>
  C1. For every byte sequence whose length is a multiple of 4, \<open>Encode\<close> succeeds, and
  \<open>Decode\<close> of the text it returns succeeds and returns the byte sequence.
\<close>

theorem C1_roundtrip:
  assumes "length b mod 4 = 0"
  shows "\<exists>s. Encode b = Some (s, None) \<and> Decode s = Some (b, None)"
proof -
  let ?s = "string_of_bytes (encodeAll b)"
  have l: "length b = 4 * (length b div 4)" using assms by auto
  then have "length (encodeAll b) = 5 * (length b div 4)" by (rule length_encodeAll)
  then have "length ?s mod 5 = 0" by (simp add: string_of_bytes_def)
  then have "Decode ?s = Some (b, None)"
    by (simp add: Decode_eq decodeAll_encodeAll [OF l])
  with Encode_ok [OF assms] show ?thesis by simp
qed

theorem C1_roundtrip_witness:
  "length [0x86, 0x4f, 0xd2, 0x6f, 0xb5, 0x59, 0xf7, 0x5b :: byte] mod 4 = 0 \<and>
   (\<exists>s. Encode [0x86, 0x4f, 0xd2, 0x6f, 0xb5, 0x59, 0xf7, 0x5b] = Some (s, None) \<and>
     Decode s = Some ([0x86, 0x4f, 0xd2, 0x6f, 0xb5, 0x59, 0xf7, 0x5b], None))"
proof -
  have h: "length [0x86, 0x4f, 0xd2, 0x6f, 0xb5, 0x59, 0xf7, 0x5b :: byte] mod 4 = 0" by simp
  from h C1_roundtrip [OF h] show ?thesis by (rule conjI)
qed

text \<open>
  C2. For an input whose length is a multiple of 4, \<open>Encode\<close> succeeds with five
  characters for each chunk of four bytes, and character \<open>j\<close> (\<open>0..4\<close>) of chunk \<open>k\<close> is
  the alphabet character of the digit of weight \<open>85 ^ (4 - j)\<close> of the chunk's big-endian
  value \<open>v\<close>: the digit \<open>v div 85 ^ (4 - j) mod 85\<close>.  The last character is that of
  \<open>v mod 85\<close>, the first that of the digit left after four divisions by 85.
\<close>

theorem C2_encode_digits:
  assumes "length b mod 4 = 0"
  shows "\<exists>s. Encode b = Some (s, None) \<and> length s = 5 * (length b div 4) \<and>
    (\<forall>k<length b div 4. \<forall>j<5.
       s ! (5 * k + j) = encodeTable ! (chunkValue b k div 85 ^ (4 - j) mod 85))"
proof -
  let ?n = "length b div 4"
  let ?s = "string_of_bytes (encodeAll b)"
  have l: "length b = 4 * ?n" using assms by auto
  then have le: "length (encodeAll b) = 5 * ?n" by (rule length_encodeAll)
  have "?s ! (5 * k + j) = encodeTable ! (chunkValue b k div 85 ^ (4 - j) mod 85)"
    if "k < ?n" "j < 5" for k j
  proof -
    from that have "5 * k + j < length (encodeAll b)" using le by simp
    then have "?s ! (5 * k + j) = char_of (unat (encodeAll b ! (5 * k + j)))"
      by (simp add: string_of_bytes_def)
    then show ?thesis
      by (simp only: nth_encodeAll [OF l that] char_of_digitChar)
  qed
  moreover have "length ?s = 5 * ?n" using le by (simp add: string_of_bytes_def)
  ultimately show ?thesis
    using Encode_ok [OF assms] by simp
qed

theorem C2_encode_digits_witness:
  "length [0x86, 0x4f, 0xd2, 0x6f :: byte] mod 4 = 0 \<and>
   Encode [0x86, 0x4f, 0xd2, 0x6f] = Some (''Hello'', None) \<and>
   chunkValue [0x86, 0x4f, 0xd2, 0x6f] 0 = 2253378159 \<and>
   ''Hello'' ! 0 = encodeTable ! (2253378159 div 85 ^ 4 mod 85) \<and>
   ''Hello'' ! 4 = encodeTable ! (2253378159 mod 85)"
proof -
  have h: "length [0x86, 0x4f, 0xd2, 0x6f :: byte] mod 4 = 0" by simp
  have e: "Encode [0x86, 0x4f, 0xd2, 0x6f] = Some (''Hello'', None)" by code_simp
  have v: "chunkValue [0x86, 0x4f, 0xd2, 0x6f] 0 = 2253378159" by (simp add: chunkValue_def)
  from C2_encode_digits [OF h] e
  have *: "\<forall>k<length [0x86, 0x4f, 0xd2, 0x6f :: byte] div 4. \<forall>j<5.
       ''Hello'' ! (5 * k + j) = encodeTable ! (chunkValue [0x86, 0x4f, 0xd2, 0x6f] k div 85 ^ (4 - j) mod 85)"
    by simp
  from * have "''Hello'' ! (5 * 0 + 0) = encodeTable ! (chunkValue [0x86, 0x4f, 0xd2, 0x6f] 0 div 85 ^ (4 - 0) mod 85)"
    by (elim allE [of _ 0] impE) simp_all
  moreover from * have "''Hello'' ! (5 * 0 + 4) = encodeTable ! (chunkValue [0x86, 0x4f, 0xd2, 0x6f] 0 div 85 ^ (4 - 4) mod 85)"
    by (elim allE [of _ 0] allE [of _ 4] impE) simp_all
  ultimately show ?thesis
    using h e v by simp
qed

text \<open>
  C3. When the length of the input is a multiple of 5 and some character of the input is
  not in the alphabet, \<open>Decode\<close> returns no bytes and \<open>ErrInvalidByte\<close> with the index
  \<open>p\<close> of the first such character and the byte at \<open>p\<close>.  The index counts from the start
  of the whole input: it is the chunk index times 5 plus the offset in the chunk.
\<close>

theorem C3_invalid_byte:
  assumes "length s mod 5 = 0"
    and "\<exists>c\<in>set s. c \<notin> set encodeTable"
  shows "\<exists>p<length s. s ! p \<notin> set encodeTable \<and> (\<forall>i<p. s ! i \<in> set encodeTable) \<and>
    Decode s = Some ([], Some (ErrInvalidByte p (of_char (s ! p))))"
proof -
  from assms(2) obtain p where p: "p < length s" "s ! p \<notin> set encodeTable"
    "\<forall>i<p. s ! i \<in> set encodeTable"
    using first_outside_ex [of s "set encodeTable"] by blast
  have "length s = 5 * (length s div 5)" using assms(1) by auto
  then have "decodeAll 0 s = Inl (ErrInvalidByte (0 + p) (of_char (s ! p)))"
    using p by (rule decodeAll_first_invalid)
  then have "Decode s = Some ([], Some (ErrInvalidByte p (of_char (s ! p))))"
    using assms(1) by (simp add: Decode_eq)
  with p show ?thesis by blast
qed

theorem C3_invalid_byte_witness:
  "length ''123455432112,45'' mod 5 = 0 \<and> CHR '','' \<in> set ''123455432112,45'' \<and>
   CHR '','' \<notin> set encodeTable \<and>
   (\<exists>p<length ''123455432112,45''. ''123455432112,45'' ! p \<notin> set encodeTable \<and>
      (\<forall>i<p. ''123455432112,45'' ! i \<in> set encodeTable) \<and>
      Decode ''123455432112,45'' =
        Some ([], Some (ErrInvalidByte p (of_char (''123455432112,45'' ! p))))) \<and>
   Decode ''123455432112,45'' = Some ([], Some (ErrInvalidByte 12 (of_char CHR '','')))"
proof -
  let ?s = "''123455432112,45''"
  have 1: "length ?s mod 5 = 0" by simp
  have m: "CHR '','' \<in> set ?s" by simp
  have n: "CHR '','' \<notin> set encodeTable" by (simp add: encodeTable_def)
  from m n have 2: "\<exists>c\<in>set ?s. c \<notin> set encodeTable" by (rule bexI [rotated])
  have d: "Decode ?s = Some ([], Some (ErrInvalidByte 12 (of_char CHR '','')))" by code_simp
  from C3_invalid_byte [OF 1 2] 1 m n d show ?thesis by (intro conjI)
qed

text \<open>
  C4. \<open>Encode\<close> returns \<open>ErrInvalidLength 4\<close> (and the empty string, no partial output)
  when the length of its input is not a multiple of 4, and no \<open>ErrInvalidLength\<close> at all
  when it is; \<open>Decode\<close> returns \<open>ErrInvalidLength 5\<close> when the length of its input is not
  a multiple of 5, and no \<open>ErrInvalidLength\<close> at all when it is.
\<close>

theorem C4_length_errors:
  "(length b mod 4 \<noteq> 0 \<longrightarrow> Encode b = Some ('''', Some (ErrInvalidLength 4))) \<and>
   (length b mod 4 = 0 \<longrightarrow> (\<forall>s d. Encode b \<noteq> Some (s, Some (ErrInvalidLength d)))) \<and>
   (length t mod 5 \<noteq> 0 \<longrightarrow> Decode t = Some ([], Some (ErrInvalidLength 5))) \<and>
   (length t mod 5 = 0 \<longrightarrow> (\<forall>r d. Decode t \<noteq> Some (r, Some (ErrInvalidLength d))))"
proof (intro conjI impI allI)
  assume "length b mod 4 \<noteq> 0"
  then show "Encode b = Some ('''', Some (ErrInvalidLength 4))"
    by (rule Encode_bad_length)
next
  fix s d
  assume "length b mod 4 = 0"
  then show "Encode b \<noteq> Some (s, Some (ErrInvalidLength d))"
    by (simp add: Encode_ok)
next
  assume "length t mod 5 \<noteq> 0"
  then show "Decode t = Some ([], Some (ErrInvalidLength 5))"
    by (rule Decode_bad_length)
next
  fix r d
  assume "length t mod 5 = 0"
  then show "Decode t \<noteq> Some (r, Some (ErrInvalidLength d))"
    by (auto simp add: Decode_eq split: sum.splits dest: decodeAll_Inl)
qed

theorem C4_length_errors_witness:
  "Encode [1, 2, 3] = Some ('''', Some (ErrInvalidLength 4)) \<and>
   (\<forall>s d. Encode [1, 2, 3, 4] \<noteq> Some (s, Some (ErrInvalidLength d))) \<and>
   Decode ''1234'' = Some ([], Some (ErrInvalidLength 5)) \<and>
   (\<forall>r d. Decode ''12345'' \<noteq> Some (r, Some (ErrInvalidLength d)))"
  using C4_length_errors [of "[1, 2, 3]" "''1234''"] C4_length_errors [of "[1, 2, 3, 4]" "''12345''"]
  by simp

text \<open>
  C5. When \<open>Encode\<close> succeeds its output has \<open>len(input) / 4 * 5\<close> characters, and when
  \<open>Decode\<close> succeeds its output has \<open>len(input) / 5 * 4\<close> bytes.
\<close>

theorem C5_output_length:
  "(Encode b = Some (s, None) \<longrightarrow> length s = length b div 4 * 5) \<and>
   (Decode t = Some (r, None) \<longrightarrow> length r = length t div 5 * 4)"
proof (intro conjI impI)
  assume e: "Encode b = Some (s, None)"
  then have m: "length b mod 4 = 0"
    using Encode_bad_length [of b] by auto
  then have "length b = 4 * (length b div 4)" by auto
  then have "length (encodeAll b) = 5 * (length b div 4)" by (rule length_encodeAll)
  then show "length s = length b div 4 * 5"
    using e m by (auto simp add: Encode_ok string_of_bytes_def)
next
  assume d: "Decode t = Some (r, None)"
  then have m: "length t mod 5 = 0"
    using Decode_bad_length [of t] by auto
  then have l: "length t = 5 * (length t div 5)" by auto
  from d m have "decodeAll 0 t = Inr r"
    by (auto simp add: Decode_eq split: sum.splits)
  with l have "length r = 4 * (length t div 5)" by (rule length_decodeAll)
  then show "length r = length t div 5 * 4" by simp
qed

theorem C5_output_length_witness:
  "Encode [0x86, 0x4f, 0xd2, 0x6f, 0xb5, 0x59, 0xf7, 0x5b] = Some (''HelloWorld'', None) \<and>
   length ''HelloWorld'' = length [0x86, 0x4f, 0xd2, 0x6f, 0xb5, 0x59, 0xf7, 0x5b :: byte] div 4 * 5 \<and>
   Decode ''HelloWorld'' = Some ([0x86, 0x4f, 0xd2, 0x6f, 0xb5, 0x59, 0xf7, 0x5b], None) \<and>
   length [0x86, 0x4f, 0xd2, 0x6f, 0xb5, 0x59, 0xf7, 0x5b :: byte] = length ''HelloWorld'' div 5 * 4"
proof -
  have e: "Encode [0x86, 0x4f, 0xd2, 0x6f, 0xb5, 0x59, 0xf7, 0x5b] = Some (''HelloWorld'', None)"
    by code_simp
  have d: "Decode ''HelloWorld'' = Some ([0x86, 0x4f, 0xd2, 0x6f, 0xb5, 0x59, 0xf7, 0x5b], None)"
    by code_simp
  from C5_output_length [of "[0x86, 0x4f, 0xd2, 0x6f, 0xb5, 0x59, 0xf7, 0x5b]" "''HelloWorld''"
      "''HelloWorld''" "[0x86, 0x4f, 0xd2, 0x6f, 0xb5, 0x59, 0xf7, 0x5b]"] e d
  show ?thesis by blast
qed

text \<open>
  C6. The alphabet table has 85 entries, pairwise distinct, each a printable ASCII
  character that is not white space (codes \<open>0x21..0x7E\<close>), the first \<open>0\<close> and the last
  \<open>#\<close>.  The reverse table has offset \<open>!\<close> and covers the codes \<open>!\<close> to \<open>}\<close>: for a
  character \<open>c\<close> in that range and a value \<open>v\<close> in \<open>0..84\<close>, its entry for \<open>c\<close> is \<open>v\<close>
  exactly when the alphabet's entry \<open>v\<close> is \<open>c\<close>, and the entry of a character that is not
  in the alphabet is the sentinel \<open>0xFF\<close>.  A character below \<open>!\<close> or above \<open>}\<close> is not in
  the alphabet, and the inner loop of \<open>Decode\<close> returns \<open>ErrInvalidByte\<close> for it.
\<close>

theorem C6_tables:
  "length encodeTable = 85 \<and> distinct encodeTable \<and>
   (\<forall>c\<in>set encodeTable. 0x21 \<le> (of_char c :: nat) \<and> (of_char c :: nat) \<le> 0x7E) \<and>
   encodeTable ! 0 = CHR ''0'' \<and> encodeTable ! 84 = CHR ''#'' \<and>
   decodeOffset = of_char CHR ''!'' \<and> decodeMaxValue = of_char CHR ''}'' \<and>
   length decodeTable = of_char CHR ''}'' - of_char CHR ''!'' + 1 \<and> ivEc = 0xFF \<and>
   (\<forall>c. decodeOffset \<le> of_char c \<and> (of_char c :: byte) \<le> decodeMaxValue \<longrightarrow>
     (\<forall>v<85. (decodeTable ! unat ((of_char c :: byte) - decodeOffset) = of_nat v) =
               (encodeTable ! v = c)) \<and>
     (c \<notin> set encodeTable \<longrightarrow> decodeTable ! unat ((of_char c :: byte) - decodeOffset) = ivEc)) \<and>
   (\<forall>c. (of_char c :: byte) < decodeOffset \<or> decodeMaxValue < (of_char c :: byte) \<longrightarrow>
     c \<notin> set encodeTable \<and>
     (\<forall>chunkIndex i source value. i < 5 \<and> i < length source \<and> source ! i = c \<longrightarrow>
        decodeChars chunkIndex i source value =
          Some (Inl (ErrInvalidByte (chunkIndex * 5 + i) (of_char c)))))"
proof (intro conjI)
  show "length encodeTable = 85" by (rule length_encodeTable)
  show "distinct encodeTable" by (rule distinct_encodeTable)
  show "\<forall>c\<in>set encodeTable. 0x21 \<le> (of_char c :: nat) \<and> (of_char c :: nat) \<le> 0x7E"
    using alphabet_printable by simp
  show "encodeTable ! 0 = CHR ''0''" by (simp add: encodeTable_def)
  show "encodeTable ! 84 = CHR ''#''" by (simp add: encodeTable_def)
  show "decodeOffset = of_char CHR ''!''" by (rule decodeOffset_def)
  show "decodeMaxValue = of_char CHR ''}''" by (simp add: decodeMaxValue_eq)
  show "length decodeTable = of_char CHR ''}'' - of_char CHR ''!'' + 1"
    by (simp add: length_decodeTable)
  show "ivEc = 0xFF" by (rule ivEc_def)
  show "\<forall>c. decodeOffset \<le> of_char c \<and> (of_char c :: byte) \<le> decodeMaxValue \<longrightarrow>
     (\<forall>v<85. (decodeTable ! unat ((of_char c :: byte) - decodeOffset) = of_nat v) =
               (encodeTable ! v = c)) \<and>
     (c \<notin> set encodeTable \<longrightarrow> decodeTable ! unat ((of_char c :: byte) - decodeOffset) = ivEc)"
    using decodeTable_inverse by blast
  show "\<forall>c. (of_char c :: byte) < decodeOffset \<or> decodeMaxValue < (of_char c :: byte) \<longrightarrow>
     c \<notin> set encodeTable \<and>
     (\<forall>chunkIndex i source value. i < 5 \<and> i < length source \<and> source ! i = c \<longrightarrow>
        decodeChars chunkIndex i source value =
          Some (Inl (ErrInvalidByte (chunkIndex * 5 + i) (of_char c))))"
    using alphabet_in_range decodeChars_out_of_range by blast
qed

theorem C6_tables_witness:
  "decodeOffset \<le> of_char CHR ''a'' \<and> (of_char CHR ''a'' :: byte) \<le> decodeMaxValue \<and>
   encodeTable ! 10 = CHR ''a'' \<and>
   decodeTable ! unat ((of_char CHR ''a'' :: byte) - decodeOffset) = 10 \<and>
   decodeOffset \<le> of_char CHR '','' \<and> (of_char CHR '','' :: byte) \<le> decodeMaxValue \<and>
   CHR '','' \<notin> set encodeTable \<and>
   decodeTable ! unat ((of_char CHR '','' :: byte) - decodeOffset) = ivEc \<and>
   decodeMaxValue < (of_char CHR ''~'' :: byte) \<and> CHR ''~'' \<notin> set encodeTable \<and>
   decodeChars 0 3 ''123~5'' 0 = Some (Inl (ErrInvalidByte 3 (of_char CHR ''~'')))"
proof -
  have inv: "\<forall>c. decodeOffset \<le> of_char c \<and> (of_char c :: byte) \<le> decodeMaxValue \<longrightarrow>
     (\<forall>v<85. (decodeTable ! unat ((of_char c :: byte) - decodeOffset) = of_nat v) =
               (encodeTable ! v = c)) \<and>
     (c \<notin> set encodeTable \<longrightarrow> decodeTable ! unat ((of_char c :: byte) - decodeOffset) = ivEc)"
    using C6_tables by (elim conjE)
  have out: "\<forall>c. (of_char c :: byte) < decodeOffset \<or> decodeMaxValue < (of_char c :: byte) \<longrightarrow>
     c \<notin> set encodeTable \<and>
     (\<forall>chunkIndex i source value. i < 5 \<and> i < length source \<and> source ! i = c \<longrightarrow>
        decodeChars chunkIndex i source value =
          Some (Inl (ErrInvalidByte (chunkIndex * 5 + i) (of_char c))))"
    using C6_tables by (elim conjE)
  have a: "decodeOffset \<le> of_char CHR ''a'' \<and> (of_char CHR ''a'' :: byte) \<le> decodeMaxValue"
    by (simp add: decodeOffset_eq decodeMaxValue_eq)
  have a10: "encodeTable ! 10 = CHR ''a''" by (simp add: encodeTable_def)
  from inv [rule_format, OF a]
  have "\<forall>v<85. (decodeTable ! unat ((of_char CHR ''a'' :: byte) - decodeOffset) = of_nat v) =
      (encodeTable ! v = CHR ''a'')"
    by (rule conjunct1)
  then have "(decodeTable ! unat ((of_char CHR ''a'' :: byte) - decodeOffset) = of_nat 10) =
      (encodeTable ! 10 = CHR ''a'')"
    by (elim allE [of _ "10::nat"]) simp
  with a10 have a': "decodeTable ! unat ((of_char CHR ''a'' :: byte) - decodeOffset) = 10" by simp
  have c: "decodeOffset \<le> of_char CHR '','' \<and> (of_char CHR '','' :: byte) \<le> decodeMaxValue"
    by (simp add: decodeOffset_eq decodeMaxValue_eq)
  have cn: "CHR '','' \<notin> set encodeTable" by (simp add: encodeTable_def)
  from inv [rule_format, OF c]
  have "CHR '','' \<notin> set encodeTable \<longrightarrow>
      decodeTable ! unat ((of_char CHR '','' :: byte) - decodeOffset) = ivEc"
    by (rule conjunct2)
  with cn have c': "decodeTable ! unat ((of_char CHR '','' :: byte) - decodeOffset) = ivEc"
    by simp
  have t: "decodeMaxValue < (of_char CHR ''~'' :: byte)"
    by (simp add: decodeMaxValue_eq)
  have t': "(of_char CHR ''~'' :: byte) < decodeOffset \<or> decodeMaxValue < (of_char CHR ''~'' :: byte)"
    using t by (rule disjI2)
  from out [rule_format, OF t'] have tn: "CHR ''~'' \<notin> set encodeTable"
    by (rule conjunct1)
  from out [rule_format, OF t']
  have "\<forall>chunkIndex i source value. i < 5 \<and> i < length source \<and> source ! i = CHR ''~'' \<longrightarrow>
        decodeChars chunkIndex i source value =
          Some (Inl (ErrInvalidByte (chunkIndex * 5 + i) (of_char CHR ''~'')))"
    by (rule conjunct2)
  then have "(3::nat) < 5 \<and> 3 < length ''123~5'' \<and> ''123~5'' ! 3 = CHR ''~'' \<longrightarrow>
      decodeChars 0 3 ''123~5'' 0 = Some (Inl (ErrInvalidByte (0 * 5 + 3) (of_char CHR ''~'')))"
    by blast
  then have "decodeChars 0 3 ''123~5'' 0 = Some (Inl (ErrInvalidByte 3 (of_char CHR ''~'')))"
    by simp
  with a a10 a' c cn c' t tn show ?thesis by simp
qed

text \<open>
  C7. \<open>Encode\<close> of the empty byte sequence returns the empty string and no error;
  \<open>Decode\<close> of the empty string returns an empty byte sequence and no error.
\<close>

theorem C7_empty_input: "Encode [] = Some ('''', None) \<and> Decode '''' = Some ([], None)"
  by code_simp

text \<open>
  C8. The known vectors: the eight bytes \<open>86 4f d2 6f b5 59 f7 5b\<close> encode to
  \<open>HelloWorld\<close>, \<open>HelloWorld\<close> decodes to those bytes, and \<open>khpb9ZWRsz\<close> decodes to
  \<open>3e dc 70 d2 bf f1 01 1b\<close>, each with no error.
\<close>

theorem C8_known_vectors:
  "Encode [0x86, 0x4f, 0xd2, 0x6f, 0xb5, 0x59, 0xf7, 0x5b] = Some (''HelloWorld'', None) \<and>
   Decode ''HelloWorld'' = Some ([0x86, 0x4f, 0xd2, 0x6f, 0xb5, 0x59, 0xf7, 0x5b], None) \<and>
   Decode ''khpb9ZWRsz'' = Some ([0x3e, 0xdc, 0x70, 0xd2, 0xbf, 0xf1, 0x01, 0x1b], None)"
  by code_simp

text \<open>
  C9. An error that \<open>Encode\<close> returns is \<open>ErrInvalidLength 4\<close>, and one that \<open>Decode\<close>
  returns is \<open>ErrInvalidLength 5\<close> or an \<open>ErrInvalidByte\<close>; so either is of one of the two
  kinds, \<open>IsErrInvalidLength\<close> (\<open>errors.As\<close> with the value type as target) holds of it
  exactly when it is an \<open>ErrInvalidLength\<close>, \<open>IsErrInvalidByte\<close> (\<open>errors.As\<close> with the
  pointer type as target) exactly when it is an \<open>ErrInvalidByte\<close>, and exactly one of the
  two holds.  The message text has no part in it: another error that wraps the returned
  one is classified as the returned one is, whatever its own message, and an error of
  another type whose message is the very text of the returned error is classified by
  neither predicate.
\<close>

theorem C9_error_predicates:
  assumes "Encode b = Some (s, Some e) \<or> Decode t = Some (r, Some e)"
  shows "(Encode b = Some (s, Some e) \<longrightarrow> e = ErrInvalidLength 4) \<and>
    (Decode t = Some (r, Some e) \<longrightarrow>
       e = ErrInvalidLength 5 \<or> (\<exists>p<length t. \<exists>v. e = ErrInvalidByte p v)) \<and>
    ((\<exists>d. e = ErrInvalidLength d) \<or> (\<exists>p v. e = ErrInvalidByte p v)) \<and>
    IsErrInvalidLength (Some e) = (\<exists>d. e = ErrInvalidLength d) \<and>
    IsErrInvalidByte (Some e) = (\<exists>p v. e = ErrInvalidByte p v) \<and>
    IsErrInvalidLength (Some e) \<noteq> IsErrInvalidByte (Some e) \<and>
    (\<forall>m. IsErrInvalidLength (Some (Foreign m (Some e))) = IsErrInvalidLength (Some e) \<and>
         IsErrInvalidByte (Some (Foreign m (Some e))) = IsErrInvalidByte (Some e)) \<and>
    \<not> IsErrInvalidLength (Some (Foreign (Error e) None)) \<and>
    \<not> IsErrInvalidByte (Some (Foreign (Error e) None))"
proof -
  have enc: "Encode b = Some (s, Some e) \<longrightarrow> e = ErrInvalidLength 4"
    using Encode_error by blast
  have dec: "Decode t = Some (r, Some e) \<longrightarrow>
       e = ErrInvalidLength 5 \<or> (\<exists>p<length t. \<exists>v. e = ErrInvalidByte p v)"
    using Decode_error by blast
  from assms enc dec
  have kind: "(\<exists>d. e = ErrInvalidLength d) \<or> (\<exists>p v. e = ErrInvalidByte p v)"
    by blast
  then have cls: "IsErrInvalidLength (Some e) = (\<exists>d. e = ErrInvalidLength d)"
    "IsErrInvalidByte (Some e) = (\<exists>p v. e = ErrInvalidByte p v)"
    "IsErrInvalidLength (Some e) \<noteq> IsErrInvalidByte (Some e)"
    by (auto simp add: IsErr_package_errors)
  have wrap: "\<forall>m. IsErrInvalidLength (Some (Foreign m (Some e))) = IsErrInvalidLength (Some e) \<and>
         IsErrInvalidByte (Some (Foreign m (Some e))) = IsErrInvalidByte (Some e)"
    by (simp add: IsErr_foreign)
  have same_text: "\<not> IsErrInvalidLength (Some (Foreign (Error e) None))"
    "\<not> IsErrInvalidByte (Some (Foreign (Error e) None))"
    by (simp_all add: IsErr_foreign IsErr_nil)
  from enc dec kind cls wrap same_text show ?thesis
    by (intro conjI)
qed

theorem C9_error_predicates_witness:
  "Encode [1, 2, 3] = Some ('''', Some (ErrInvalidLength 4)) \<and>
   IsErrInvalidLength (Some (ErrInvalidLength 4)) \<and>
   \<not> IsErrInvalidByte (Some (ErrInvalidLength 4)) \<and>
   IsErrInvalidLength (Some (Foreign ''encoding failed'' (Some (ErrInvalidLength 4)))) \<and>
   Error (ErrInvalidLength 4) = ''input length is not a multiple of 4'' \<and>
   \<not> IsErrInvalidLength (Some (Foreign ''input length is not a multiple of 4'' None)) \<and>
   Decode ''123~5'' = Some ([], Some (ErrInvalidByte 3 126)) \<and>
   IsErrInvalidByte (Some (ErrInvalidByte 3 126)) \<and>
   \<not> IsErrInvalidLength (Some (ErrInvalidByte 3 126)) \<and>
   IsErrInvalidByte (Some (Foreign ''decoding failed'' (Some (ErrInvalidByte 3 126))))"
proof -
  have e: "Encode [1, 2, 3] = Some ('''', Some (ErrInvalidLength 4))"
    by code_simp
  have d: "Decode ''123~5'' = Some ([], Some (ErrInvalidByte 3 126))"
    by code_simp
  have m: "Error (ErrInvalidLength 4) = ''input length is not a multiple of 4''"
    by code_simp
  have 1: "Encode [1, 2, 3] = Some ('''', Some (ErrInvalidLength 4)) \<or>
    Decode ''123~5'' = Some ([], Some (ErrInvalidLength 4))"
    using e by (rule disjI1)
  have 2: "Encode [1, 2, 3] = Some ('''', Some (ErrInvalidByte 3 126)) \<or>
    Decode ''123~5'' = Some ([], Some (ErrInvalidByte 3 126))"
    using d by (rule disjI2)
  note L = C9_error_predicates [OF 1]
  note B = C9_error_predicates [OF 2]
  from L have l1: "IsErrInvalidLength (Some (ErrInvalidLength 4))" by blast
  from L have l2: "\<not> IsErrInvalidByte (Some (ErrInvalidLength 4))" by blast
  from L have l3: "IsErrInvalidLength (Some (Foreign ''encoding failed'' (Some (ErrInvalidLength 4))))"
    by blast
  from L have "\<not> IsErrInvalidLength (Some (Foreign (Error (ErrInvalidLength 4)) None))"
    by blast
  then have l4: "\<not> IsErrInvalidLength (Some (Foreign ''input length is not a multiple of 4'' None))"
    unfolding m .
  from B have b1: "IsErrInvalidByte (Some (ErrInvalidByte 3 126))" by blast
  from B have b2: "\<not> IsErrInvalidLength (Some (ErrInvalidByte 3 126))" by blast
  from B have b3: "IsErrInvalidByte (Some (Foreign ''decoding failed'' (Some (ErrInvalidByte 3 126))))"
    by blast
  from e l1 l2 l3 m l4 d b1 b2 b3 show ?thesis by (intro conjI)
qed

text \<open>
  C10. Let the length of the input be a multiple of 5 and let group \<open>k\<close> consist of
  alphabet characters only, with a base-85 value \<open>d0 * 85^4 + d1 * 85^3 + d2 * 85^2 +
  d3 * 85 + d4\<close> of at least \<open>2^32\<close>.  Then \<open>Decode\<close> reports no error for that group:
  an \<open>ErrInvalidByte\<close> it returns has its position in another group.  When every
  character of the input is in the alphabet, \<open>Decode\<close> succeeds, and the four bytes it
  returns for group \<open>k\<close> are the big-endian bytes of the value modulo \<open>2^32\<close>.
\<close>

theorem C10_decode_wraps:
  assumes "length s mod 5 = 0"
    and "k < length s div 5"
    and "\<forall>i<5. s ! (5 * k + i) \<in> set encodeTable"
    and "2 ^ 32 \<le> groupValue s k"
  shows "(\<forall>r p v. Decode s = Some (r, Some (ErrInvalidByte p v)) \<longrightarrow> p div 5 \<noteq> k) \<and>
    ((\<forall>c\<in>set s. c \<in> set encodeTable) \<longrightarrow>
      (\<exists>r. Decode s = Some (r, None) \<and>
        r ! (4 * k) = of_nat (groupValue s k mod 2 ^ 32 div 2 ^ 24 mod 256) \<and>
        r ! (4 * k + 1) = of_nat (groupValue s k mod 2 ^ 32 div 2 ^ 16 mod 256) \<and>
        r ! (4 * k + 2) = of_nat (groupValue s k mod 2 ^ 32 div 2 ^ 8 mod 256) \<and>
        r ! (4 * k + 3) = of_nat (groupValue s k mod 2 ^ 32 mod 256)))"
proof (intro conjI allI impI)
  fix r p v
  assume d: "Decode s = Some (r, Some (ErrInvalidByte p v))"
  have l: "length s = 5 * (length s div 5)" using assms(1) by auto
  from d have "decodeAll 0 s = Inl (ErrInvalidByte p v)"
    using assms(1) by (auto simp add: Decode_eq split: sum.splits)
  with l obtain q where q: "q < length s" "p = 0 + q" "s ! q \<notin> set encodeTable"
    using decodeAll_error_position by blast
  show "p div 5 \<noteq> k"
  proof
    assume "p div 5 = k"
    then have "p = 5 * k + p mod 5" by auto
    moreover have "p mod 5 < 5" by simp
    ultimately have "s ! p \<in> set encodeTable" using assms(3) by metis
    with q show False by simp
  qed
next
  assume valid: "\<forall>c\<in>set s. c \<in> set encodeTable"
  have l: "length s = 5 * (length s div 5)" using assms(1) by auto
  from valid obtain bs where bs: "decodeAll 0 s = Inr bs"
    using decodeAll_all_valid by blast
  have nth: "bs ! (4 * k + j) = bytesBE (of_nat (groupValue s k)) ! j" if "j < 4" for j
    using bs l assms(2) that by (rule nth_decodeAll)
  have "Decode s = Some (bs, None)"
    using assms(1) bs by (simp add: Decode_eq)
  moreover have "bs ! (4 * k) = of_nat (groupValue s k mod 2 ^ 32 div 2 ^ 24 mod 256)"
    using nth [of 0] by (simp add: bytesBE_def ucast_drop_bit_of_nat byte_of_nat_mod)
  moreover have "bs ! (4 * k + 1) = of_nat (groupValue s k mod 2 ^ 32 div 2 ^ 16 mod 256)"
    using nth [of 1] by (simp add: bytesBE_def ucast_drop_bit_of_nat byte_of_nat_mod)
  moreover have "bs ! (4 * k + 2) = of_nat (groupValue s k mod 2 ^ 32 div 2 ^ 8 mod 256)"
    using nth [of 2] by (simp add: bytesBE_def ucast_drop_bit_of_nat byte_of_nat_mod)
  moreover have "bs ! (4 * k + 3) = of_nat (groupValue s k mod 2 ^ 32 mod 256)"
    using nth [of 3] ucast_drop_bit_of_nat [of 0 "groupValue s k"]
    by (simp add: bytesBE_def byte_of_nat_mod)
  ultimately show "\<exists>r. Decode s = Some (r, None) \<and>
        r ! (4 * k) = of_nat (groupValue s k mod 2 ^ 32 div 2 ^ 24 mod 256) \<and>
        r ! (4 * k + 1) = of_nat (groupValue s k mod 2 ^ 32 div 2 ^ 16 mod 256) \<and>
        r ! (4 * k + 2) = of_nat (groupValue s k mod 2 ^ 32 div 2 ^ 8 mod 256) \<and>
        r ! (4 * k + 3) = of_nat (groupValue s k mod 2 ^ 32 mod 256)"
    by blast
qed

theorem C10_decode_wraps_witness:
  "length ''#####'' mod 5 = 0 \<and> 0 < length ''#####'' div 5 \<and>
   list_all (\<lambda>c. c \<in> set encodeTable) ''#####'' \<and>
   groupValue ''#####'' 0 = 4437053124 \<and> (2::nat) ^ 32 \<le> 4437053124 \<and>
   4437053124 mod 2 ^ 32 = (142085828::nat) \<and>
   (\<exists>r. Decode ''#####'' = Some (r, None) \<and>
      r ! 0 = 8 \<and> r ! 1 = 120 \<and> r ! 2 = 14 \<and> r ! 3 = 196) \<and>
   Decode ''#####'' = Some ([8, 120, 14, 196], None)"
proof -
  let ?s = "''#####''"
  have 1: "length ?s mod 5 = 0" by simp
  have 2: "0 < length ?s div 5" by simp
  have m: "CHR ''#'' \<in> set encodeTable" by (simp add: encodeTable_def)
  then have a: "list_all (\<lambda>c. c \<in> set encodeTable) ?s" by simp
  from m have v: "\<forall>c\<in>set ?s. c \<in> set encodeTable" by simp
  have 3: "\<forall>i<5. ?s ! (5 * 0 + i) \<in> set encodeTable"
  proof (intro allI impI)
    fix i :: nat assume "i < 5"
    then have "?s ! i \<in> set ?s" by (intro nth_mem) simp
    with v show "?s ! (5 * 0 + i) \<in> set encodeTable" by simp
  qed
  have i: "alphabetIndex CHR ''#'' = 84"
    by (simp add: alphabetIndex_def encodeTable_def)
  have g: "groupValue ?s 0 = 4437053124"
    by (simp add: groupValue_def i)
  have 4: "2 ^ 32 \<le> groupValue ?s 0" by (simp add: g)
  have d: "Decode ?s = Some ([8, 120, 14, 196], None)" by code_simp
  from C10_decode_wraps [OF 1 2 3 4] v
  obtain r where r: "Decode ?s = Some (r, None)"
    and r0: "r ! (4 * 0) = of_nat (groupValue ?s 0 mod 2 ^ 32 div 2 ^ 24 mod 256)"
    and r1: "r ! (4 * 0 + 1) = of_nat (groupValue ?s 0 mod 2 ^ 32 div 2 ^ 16 mod 256)"
    and r2: "r ! (4 * 0 + 2) = of_nat (groupValue ?s 0 mod 2 ^ 32 div 2 ^ 8 mod 256)"
    and r3: "r ! (4 * 0 + 3) = of_nat (groupValue ?s 0 mod 2 ^ 32 mod 256)"
    by blast
  have "r ! 0 = 8" using r0 by (simp add: g)
  moreover have "r ! 1 = 120" using r1 by (simp add: g)
  moreover have "r ! 2 = 14" using r2 by (simp add: g numeral_2_eq_2 [symmetric])
  moreover have "r ! 3 = 196" using r3 by (simp add: g)
  ultimately have "\<exists>r. Decode ?s = Some (r, None) \<and>
      r ! 0 = 8 \<and> r ! 1 = 120 \<and> r ! 2 = 14 \<and> r ! 3 = 196"
    using r by blast
  with 1 2 a g d show ?thesis by simp
qed

end
